theory Spec2Isabelle
  imports Complex_Main
begin

section \<open>Data model\<close>

text \<open>
  A JSON value as \<^verbatim>\<open>JsonValue\<close> declares it. A number is only ever compared for
  equality, so any finite double is a \<^typ>\<open>real\<close>. An object is the list of its own
  properties in enumeration order (the order of \<^verbatim>\<open>for ... in\<close>); a JavaScript
  object holds each key once.

  An object carries its reference as well. The source compares with \<^verbatim>\<open>!==\<close> in two
  places. Where one side is a primitive, or the two sides are of different kinds, the
  references play no part. Two objects meet in \<^verbatim>\<open>leftValue !== rightValue\<close> when the
  right one owns a property \<^verbatim>\<open>constructor\<close>, so that \<^verbatim>\<open>isJsonObject\<close> refuses it,
  and there the language compares the references. Two objects of a heap are the same
  object exactly when they have the same reference, and then they have the same
  properties; so on the values that stand for a heap \<^verbatim>\<open>!==\<close> is the inequality of
  this type. Two values parsed from two texts share no reference, and the call
  \<^verbatim>\<open>generateJSONPatch(a, a)\<close> passes the same value twice. An array is never compared
  by \<^verbatim>\<open>!==\<close> with an array (the source sends two arrays to \<^verbatim>\<open>compareArrays\<close> or
  replaces one of them), so an array carries no reference.

  The callbacks are total functions without effects.
\<close>

type_synonym reference = nat

datatype json =
    JNull
  | JBool bool
  | JNum real
  | JStr string
  | JArr "json list"
  | JObj reference "(string \<times> json) list"

datatype operation =
    Add (op_path: string) (op_value: json)
  | Remove (op_path: string)
  | Replace (op_path: string) (op_value: json)
  | Move (op_from: string) (op_path: string)
  | Copy (op_from: string) (op_path: string)
  | Test (op_path: string) (op_value: json)

type_synonym patch = "operation list"

datatype side = Left | Right

record patch_context =
  ctx_side :: side
  ctx_path :: string

text \<open>
  \<^verbatim>\<open>config.objectHash\<close> is read twice: \<^verbatim>\<open>compareArrays\<close> tests its truthiness and
  \<^verbatim>\<open>compareArrayByHash\<close> tests \<^verbatim>\<open>typeof objectHash !== 'function'\<close>. So it is
  absent (or falsy), a truthy value that cannot be called, or a function. The hash itself
  is any value compared with \<^verbatim>\<open>indexOf\<close>/\<^verbatim>\<open>includes\<close>; its type is a parameter.
  \<^verbatim>\<open>propertyFilter\<close> counts only when \<^verbatim>\<open>typeof propertyFilter === 'function'\<close>.
\<close>

datatype 'h object_hash =
    NoHash
  | NotCallable
  | HashFn "json \<Rightarrow> patch_context \<Rightarrow> 'h"

record 'h config =
  objectHash :: "'h object_hash"
  propertyFilter :: "(string \<Rightarrow> patch_context \<Rightarrow> bool) option"
  ignoreMove :: bool

text \<open>
  The two ways the function throws: the \<^verbatim>\<open>Error('No objectHash function provided')\<close> of
  \<^verbatim>\<open>compareArrayByHash\<close>, and the \<^verbatim>\<open>TypeError\<close> of calling
  \<^verbatim>\<open>x.hasOwnProperty(...)\<close> on an object whose own property \<^verbatim>\<open>hasOwnProperty\<close> is
  a JSON value and not a function.
\<close>

datatype error = MissingHashFunction | TypeError

type_synonym 'a result = "error + 'a"

section \<open>Helpers\<close>

definition digit_char :: "nat \<Rightarrow> char" where
  "digit_char n = ''0123456789'' ! n"

function show_nat :: "nat \<Rightarrow> string" where
  "show_nat n =
     (if n < 10 then [digit_char n] else show_nat (n div 10) @ [digit_char (n mod 10)])"
  by pat_completeness auto
termination
  by (relation "measure id") auto

declare show_nat.simps [simp del]

definition show_int :: "int \<Rightarrow> string" where
  "show_int i = (if i < 0 then CHR ''-'' # show_nat (nat (- i)) else show_nat (nat i))"

text \<open>\<^verbatim>\<open>Array.prototype.indexOf\<close>: the first index holding the value, \<open>-1\<close> when absent.\<close>

fun indexOf :: "'a list \<Rightarrow> 'a \<Rightarrow> int" where
  "indexOf [] x = - 1"
| "indexOf (y # ys) x =
     (if y = x then 0 else (let r = indexOf ys x in if r < 0 then - 1 else r + 1))"

fun isPrimitiveValue :: "json \<Rightarrow> bool" where
  "isPrimitiveValue (JArr _) = False"
| "isPrimitiveValue (JObj _ _) = False"
| "isPrimitiveValue _ = True"

text \<open>
  A property read \<^verbatim>\<open>obj[key]\<close> of an own property is \<open>map_of\<close>. The read of a key
  the object does not own gives \<^verbatim>\<open>undefined\<close>, here \<open>None\<close>, or what
  \<^verbatim>\<open>Object.prototype\<close> holds under that name: a function (for \<^verbatim>\<open>toString\<close>,
  \<^verbatim>\<open>constructor\<close> and the like), which every test of the source treats as it treats
  \<^verbatim>\<open>undefined\<close> and which is \<open>None\<close> here too, or, for the key \<^verbatim>\<open>__proto__\<close>,
  the object \<^verbatim>\<open>Object.prototype\<close> itself, which \<open>readsObjectPrototype\<close> and
  \<open>compareWithObjectPrototype\<close> below account for.

  \<^verbatim>\<open>Array.isArray\<close>, on a value that a property read may have left undefined:
\<close>

fun isArray :: "json option \<Rightarrow> bool" where
  "isArray (Some (JArr _)) = True"
| "isArray _ = False"

fun arrayItems :: "json option \<Rightarrow> json list" where
  "arrayItems (Some (JArr xs)) = xs"
| "arrayItems _ = []"

fun objectEntries :: "json \<Rightarrow> (string \<times> json) list" where
  "objectEntries (JObj _ kvs) = kvs"
| "objectEntries _ = []"

text \<open>
  \<^verbatim>\<open>value?.constructor === Object\<close>: an object inherits \<^verbatim>\<open>constructor\<close> from
  \<^verbatim>\<open>Object.prototype\<close> unless an own property of that name hides it.
\<close>

fun isJsonObject :: "json option \<Rightarrow> bool" where
  "isJsonObject (Some (JObj _ kvs)) = (''constructor'' \<notin> fst ` set kvs)"
| "isJsonObject _ = False"

text \<open>
  \<^verbatim>\<open>obj.hasOwnProperty(k)\<close>: the method is looked up on the object first, so an own
  property named \<^verbatim>\<open>hasOwnProperty\<close> (a JSON value, never callable) makes the call throw.
\<close>

definition hasOwnProperty :: "(string \<times> json) list \<Rightarrow> string \<Rightarrow> bool result" where
  "hasOwnProperty obj k =
     (if ''hasOwnProperty'' \<in> fst ` set obj then Inl TypeError
      else Inr (k \<in> fst ` set obj))"

text \<open>
  \<^verbatim>\<open>array.splice(to, 0, array.splice(from, 1)[0])\<close>, with the start index of
  \<^verbatim>\<open>splice\<close> clamped as the language does. The inner call runs first, so the
  insertion is into what it leaves. Were nothing removed, the language would insert
  \<^verbatim>\<open>undefined\<close> and the model inserts nothing; \<open>moveLoop_trace\<close> below shows that
  the move loop always passes the index of an element.
\<close>

definition splice_start :: "int \<Rightarrow> nat \<Rightarrow> nat" where
  "splice_start i len = (if i < 0 then nat (max (int len + i) 0) else min (nat i) len)"

definition moveArrayElement :: "'a list \<Rightarrow> int \<Rightarrow> int \<Rightarrow> 'a list" where
  "moveArrayElement array from to =
     (let s = splice_start from (length array);
          removed = take 1 (drop s array);
          rest = take s array @ drop (Suc s) array;
          t = splice_start to (length rest)
      in take t rest @ removed @ drop t rest)"

text \<open>
  \<^verbatim>\<open>JSON.stringify(leftArr) === JSON.stringify(rightArr)\<close>. Serialisation writes the
  elements in order and the properties in enumeration order, and no reference; it is
  injective on what it writes. So the two strings are equal exactly when the two values
  are equal once their references are forgotten.
\<close>

primrec forget :: "json \<Rightarrow> json" where
  "forget JNull = JNull"
| "forget (JBool b) = JBool b"
| "forget (JNum n) = JNum n"
| "forget (JStr s) = JStr s"
| "forget (JArr xs) = JArr (map forget xs)"
| "forget (JObj i kvs) = JObj 0 (map (map_prod id forget) kvs)"

definition stringify_eq :: "json \<Rightarrow> json \<Rightarrow> bool" where
  "stringify_eq a b = (forget a = forget b)"

text \<open>\<^verbatim>\<open>hasPropertyFilter && !propertyFilter(key, { side, path })\<close>\<close>

definition filtered_out :: "'h config \<Rightarrow> string \<Rightarrow> side \<Rightarrow> string \<Rightarrow> bool" where
  "filtered_out cfg key sd path =
     (case propertyFilter cfg of
        None \<Rightarrow> False
      | Some f \<Rightarrow> \<not> f key \<lparr>ctx_side = sd, ctx_path = path\<rparr>)"

definition key_path :: "bool \<Rightarrow> string \<Rightarrow> string \<Rightarrow> string" where
  "key_path isArrayAtTop path key =
     (if isArrayAtTop \<and> path = [] then CHR ''/'' # key else path @ CHR ''/'' # key)"

definition index_path :: "string \<Rightarrow> nat \<Rightarrow> string" where
  "index_path path i = path @ CHR ''/'' # show_nat i"

text \<open>
  The shared \<^verbatim>\<open>patch\<close> array becomes the list of operations a call pushes; running one
  piece of code after another appends the lists, and a throw in either is the result.
\<close>

definition and_then :: "patch result \<Rightarrow> patch result \<Rightarrow> patch result" where
  "and_then a b =
     (case a of
        Inl e \<Rightarrow> Inl e
      | Inr ops \<Rightarrow> (case b of Inl e \<Rightarrow> Inl e | Inr ops' \<Rightarrow> Inr (ops @ ops')))"

definition and_then_state ::
  "patch result \<Rightarrow> (patch \<times> 's) result \<Rightarrow> (patch \<times> 's) result" where
  "and_then_state a b =
     (case a of
        Inl e \<Rightarrow> Inl e
      | Inr ops \<Rightarrow> (case b of Inl e \<Rightarrow> Inl e | Inr (ops', st) \<Rightarrow> Inr (ops @ ops', st)))"

section \<open>The loops of compareObjects and compareArrayByHash that do not recurse\<close>

text \<open>The second loop of \<^verbatim>\<open>compareObjects\<close>, over the keys of the left object.\<close>

fun removeLeftKeys ::
  "'h config \<Rightarrow> bool \<Rightarrow> string \<Rightarrow> (string \<times> json) list \<Rightarrow> (string \<times> json) list
     \<Rightarrow> string list \<Rightarrow> patch result" where
  "removeLeftKeys cfg isArrayAtTop path lo ro [] = Inr []"
| "removeLeftKeys cfg isArrayAtTop path lo ro (leftKey # ks) =
     (case hasOwnProperty lo leftKey of
        Inl e \<Rightarrow> Inl e
      | Inr own \<Rightarrow>
          if \<not> own \<or> filtered_out cfg leftKey Left path
          then removeLeftKeys cfg isArrayAtTop path lo ro ks
          else (case hasOwnProperty ro leftKey of
                  Inl e \<Rightarrow> Inl e
                | Inr inRight \<Rightarrow>
                    if \<not> inRight
                    then and_then (Inr [Remove (key_path isArrayAtTop path leftKey)])
                           (removeLeftKeys cfg isArrayAtTop path lo ro ks)
                    else removeLeftKeys cfg isArrayAtTop path lo ro ks))"

text \<open>
  The read \<^verbatim>\<open>leftJsonValue[rightKey]\<close> gives \<^verbatim>\<open>Object.prototype\<close>: the key is
  \<^verbatim>\<open>__proto__\<close> and the left object does not own it (a parsed text may own it).
\<close>

definition readsObjectPrototype :: "(string \<times> json) list \<Rightarrow> string \<Rightarrow> bool" where
  "readsObjectPrototype lo key = (key = ''__proto__'' \<and> key \<notin> fst ` set lo)"

text \<open>The names of the own properties of \<^verbatim>\<open>Object.prototype\<close>, none of them enumerable.\<close>

definition objectPrototypeKeys :: "string list" where
  "objectPrototypeKeys =
     [''constructor'', ''__defineGetter__'', ''__defineSetter__'', ''hasOwnProperty'',
      ''__lookupGetter__'', ''__lookupSetter__'', ''isPrototypeOf'', ''propertyIsEnumerable'',
      ''toString'', ''valueOf'', ''__proto__'', ''toLocaleString'']"

text \<open>
  The call \<^verbatim>\<open>compareObjects(path, Object.prototype, rightJsonValue)\<close>, which the source
  makes when the read above gives \<^verbatim>\<open>Object.prototype\<close> and the right value is a JSON
  object. Neither value is a primitive or an array. In the loop over the right keys the
  left value \<^verbatim>\<open>Object.prototype[rightKey]\<close> is a function, \<^verbatim>\<open>undefined\<close> or (for
  \<^verbatim>\<open>__proto__\<close>) \<^verbatim>\<open>null\<close>: never an array, never accepted by \<^verbatim>\<open>isJsonObject\<close>, and
  different from every JSON value but for \<^verbatim>\<open>null\<close> against \<^verbatim>\<open>null\<close>. The call
  \<^verbatim>\<open>Object.prototype.hasOwnProperty(rightKey)\<close> reaches the method and never throws.
  The loop over the left keys finds no enumerable property.
\<close>

fun compareWithObjectPrototype ::
  "'h config \<Rightarrow> string \<Rightarrow> (string \<times> json) list \<Rightarrow> string list \<Rightarrow> patch" where
  "compareWithObjectPrototype cfg path ro [] = []"
| "compareWithObjectPrototype cfg path ro (rightKey # ks) =
     (if filtered_out cfg rightKey Right path
      then compareWithObjectPrototype cfg path ro ks
      else
        (case map_of ro rightKey of
           None \<Rightarrow> compareWithObjectPrototype cfg path ro ks
         | Some rightValue \<Rightarrow>
            (let newPath = key_path False path rightKey;
                 own = (rightKey \<in> set objectPrototypeKeys)
             in (if isJsonObject (Some rightValue)
                 then (if own then [Replace newPath rightValue] else [Add newPath rightValue])
                 else if \<not> own then [Add newPath rightValue]
                 else if \<not> (rightKey = ''__proto__'' \<and> rightValue = JNull)
                 then [Replace newPath rightValue]
                 else [])
                @ compareWithObjectPrototype cfg path ro ks)))"

text \<open>The loop over \<^verbatim>\<open>toBeAddedHashes\<close>; it returns the counter and the shadow list too.\<close>

fun addLoop ::
  "string \<Rightarrow> json list \<Rightarrow> 'h list \<Rightarrow> nat \<Rightarrow> 'h list \<Rightarrow> 'h list \<Rightarrow> patch \<times> nat \<times> 'h list" where
  "addLoop path rightArr rightHashes currentIndex targetHashes [] =
     ([], currentIndex, targetHashes)"
| "addLoop path rightArr rightHashes currentIndex targetHashes (toBeAddedHash # hs) =
     (case addLoop path rightArr rightHashes (Suc currentIndex)
             (targetHashes @ [toBeAddedHash]) hs of
        (ops, st) \<Rightarrow>
          (Add (index_path path currentIndex)
               (rightArr ! nat (indexOf rightHashes toBeAddedHash)) # ops, st))"

text \<open>
  The move loop, \<^verbatim>\<open>for (let i = rightHashes.length - 1; i >= 0; i--)\<close>: the last
  argument is \<open>i + 1\<close>.
\<close>

fun moveLoop :: "string \<Rightarrow> 'h list \<Rightarrow> 'h list \<Rightarrow> nat \<Rightarrow> patch" where
  "moveLoop path rightHashes targetHashes 0 = []"
| "moveLoop path rightHashes targetHashes (Suc i) =
     (let hash = rightHashes ! i;
          targetIndex = indexOf rightHashes hash;
          currentIndex = indexOf targetHashes hash
      in if currentIndex \<noteq> targetIndex
         then Move (path @ CHR ''/'' # show_int currentIndex)
                   (path @ CHR ''/'' # show_int targetIndex)
              # moveLoop path rightHashes
                  (moveArrayElement targetHashes currentIndex targetIndex) i
         else moveLoop path rightHashes targetHashes i)"

section \<open>The measure for the termination of the comparison\<close>

definition compare_measure ::
  "('h config \<times> string \<times> json \<times> json
    + 'h config \<times> bool \<times> string \<times> (string \<times> json) list \<times> (string \<times> json) list \<times> string list
    + 'h config \<times> json list \<times> json list \<times> string)
   + ('h config \<times> string \<times> nat \<times> json list \<times> json list
    + 'h config \<times> json list \<times> json list \<times> string
    + 'h config \<times> (json \<Rightarrow> patch_context \<Rightarrow> 'h) \<times> string \<times> json list \<times> nat \<times> 'h list
        \<times> json list)
   \<Rightarrow> nat \<times> nat \<times> nat" where
  "compare_measure =
     case_sum
       (case_sum
          (\<lambda>(cfg, path, l, r). (size l + size r, 5, 0))
          (case_sum
             (\<lambda>(cfg, top, path, lo, ro, ks).
                (size_list (size_prod (\<lambda>_. 0) size) lo
                 + size_list (size_prod (\<lambda>_. 0) size) ro, 1, length ks))
             (\<lambda>(cfg, la, ra, path). (size_list size la + size_list size ra, 4, 0))))
       (case_sum
          (\<lambda>(cfg, path, cur, la, ra). (size_list size la + size_list size ra, 3, 0))
          (case_sum
             (\<lambda>(cfg, la, ra, path). (size_list size la + size_list size ra, 3, 0))
             (\<lambda>(cfg, h, path, ra, cur, target, la).
                (size_list size la + size_list size ra, 2, 0))))"

section \<open>generateJSONPatch\<close>

text \<open>
  The closures of \<^verbatim>\<open>generateJSONPatch\<close>. \<open>compareRightKeys\<close> is the first loop of
  \<^verbatim>\<open>compareObjects\<close> (over the keys of the right object; the key it reads is one of
  that object, so the branch for a missing right value is never taken),
  \<open>compareArrayByIndex\<close> the loop of the function of that name over what is left of the
  two arrays, with the running \<^verbatim>\<open>currentIndex\<close>, and \<open>matchLeftLoop\<close> the first loop
  of \<^verbatim>\<open>compareArrayByHash\<close> over what is left of the left array, which returns
  \<^verbatim>\<open>currentIndex\<close> and \<^verbatim>\<open>targetHashes\<close> as it leaves them (it computes the right
  hashes again at each step; the source computes them once, and the hash has no effect).
  In the two loops of \<^verbatim>\<open>compareObjects\<close> the flag \<^verbatim>\<open>isArrayAtTop\<close> is false, as the
  source has returned otherwise. The test \<^verbatim>\<open>isJsonObject(leftValue)\<close> of the source
  succeeds on an own value that is a JSON object and on \<^verbatim>\<open>Object.prototype\<close>; these
  are the two branches \<open>isJsonObject leftValue\<close> and \<open>readsObjectPrototype\<close>.
\<close>

function
  compareObjects :: "'h config \<Rightarrow> string \<Rightarrow> json \<Rightarrow> json \<Rightarrow> patch result" and
  compareRightKeys ::
    "'h config \<Rightarrow> bool \<Rightarrow> string \<Rightarrow> (string \<times> json) list \<Rightarrow> (string \<times> json) list
       \<Rightarrow> string list \<Rightarrow> patch result" and
  compareArrays :: "'h config \<Rightarrow> json list \<Rightarrow> json list \<Rightarrow> string \<Rightarrow> patch result" and
  compareArrayByIndex ::
    "'h config \<Rightarrow> string \<Rightarrow> nat \<Rightarrow> json list \<Rightarrow> json list \<Rightarrow> patch result" and
  compareArrayByHash :: "'h config \<Rightarrow> json list \<Rightarrow> json list \<Rightarrow> string \<Rightarrow> patch result" and
  matchLeftLoop ::
    "'h config \<Rightarrow> (json \<Rightarrow> patch_context \<Rightarrow> 'h) \<Rightarrow> string \<Rightarrow> json list \<Rightarrow> nat \<Rightarrow> 'h list
       \<Rightarrow> json list \<Rightarrow> (patch \<times> nat \<times> 'h list) result"
where
  "compareObjects cfg path leftJsonValue rightJsonValue =
     (let isArrayAtTop =
            (path = [] \<and> isArray (Some leftJsonValue) \<and> isArray (Some rightJsonValue))
      in
      if isPrimitiveValue leftJsonValue \<or> isPrimitiveValue rightJsonValue
      then (if leftJsonValue \<noteq> rightJsonValue
            then Inr [Replace path rightJsonValue] else Inr [])
      else if isArrayAtTop
      then compareArrays cfg (arrayItems (Some leftJsonValue))
             (arrayItems (Some rightJsonValue)) []
      else if isArray (Some leftJsonValue) \<or> isArray (Some rightJsonValue)
      then Inr [Replace path rightJsonValue]
      else and_then
             (compareRightKeys cfg isArrayAtTop path (objectEntries leftJsonValue)
                (objectEntries rightJsonValue) (map fst (objectEntries rightJsonValue)))
             (removeLeftKeys cfg isArrayAtTop path (objectEntries leftJsonValue)
                (objectEntries rightJsonValue) (map fst (objectEntries leftJsonValue))))"
| "compareRightKeys cfg isArrayAtTop path lo ro [] = Inr []"
| "compareRightKeys cfg isArrayAtTop path lo ro (rightKey # ks) =
     (if filtered_out cfg rightKey Right path
      then compareRightKeys cfg isArrayAtTop path lo ro ks
      else
        (case map_of ro rightKey of
           None \<Rightarrow> compareRightKeys cfg isArrayAtTop path lo ro ks
         | Some rightValue \<Rightarrow>
            (let newPath = key_path isArrayAtTop path rightKey;
                 leftValue = map_of lo rightKey
             in and_then
                  (if isArray leftValue \<and> isArray (Some rightValue)
                   then compareArrays cfg (arrayItems leftValue)
                          (arrayItems (Some rightValue)) newPath
                   else if isJsonObject (Some rightValue) then
                     (if isJsonObject leftValue then
                        (case leftValue of
                           Some lv \<Rightarrow> compareObjects cfg newPath lv rightValue
                         | None \<Rightarrow> Inr [])
                      else if readsObjectPrototype lo rightKey then
                        Inr (compareWithObjectPrototype cfg newPath (objectEntries rightValue)
                               (map fst (objectEntries rightValue)))
                      else (case hasOwnProperty lo rightKey of
                              Inl e \<Rightarrow> Inl e
                            | Inr own \<Rightarrow>
                                if own then Inr [Replace newPath rightValue]
                                else Inr [Add newPath rightValue]))
                   else (case hasOwnProperty lo rightKey of
                           Inl e \<Rightarrow> Inl e
                         | Inr own \<Rightarrow>
                             if \<not> own then Inr [Add newPath rightValue]
                             else if leftValue \<noteq> Some rightValue
                             then Inr [Replace newPath rightValue]
                             else Inr []))
                  (compareRightKeys cfg isArrayAtTop path lo ro ks))))"
| "compareArrays cfg leftArr rightArr path =
     (if stringify_eq (JArr leftArr) (JArr rightArr) then Inr []
      else (case objectHash cfg of
              NoHash \<Rightarrow> compareArrayByIndex cfg path 0 leftArr rightArr
            | _ \<Rightarrow> compareArrayByHash cfg leftArr rightArr path))"
| "compareArrayByIndex cfg path currentIndex [] [] = Inr []"
| "compareArrayByIndex cfg path currentIndex (x # xs) (y # ys) =
     and_then (compareObjects cfg (index_path path currentIndex) x y)
              (compareArrayByIndex cfg path (Suc currentIndex) xs ys)"
| "compareArrayByIndex cfg path currentIndex [] (y # ys) =
     and_then (Inr [Add (index_path path currentIndex) y])
              (compareArrayByIndex cfg path (Suc currentIndex) [] ys)"
| "compareArrayByIndex cfg path currentIndex (x # xs) [] =
     and_then (Inr [Remove (index_path path currentIndex)])
              (compareArrayByIndex cfg path currentIndex xs [])"
| "compareArrayByHash cfg leftArr rightArr path =
     (case objectHash cfg of
        HashFn h \<Rightarrow>
          (let rightHashes = map (\<lambda>value. h value \<lparr>ctx_side = Right, ctx_path = path\<rparr>) rightArr
           in case matchLeftLoop cfg h path rightArr 0 [] leftArr of
                Inl e \<Rightarrow> Inl e
              | Inr (ops, currentIndex, targetHashes) \<Rightarrow>
                 (let toBeAddedHashes = filter (\<lambda>hash. hash \<notin> set targetHashes) rightHashes
                  in case addLoop path rightArr rightHashes currentIndex targetHashes
                            toBeAddedHashes of
                       (adds, currentIndex', targetHashes') \<Rightarrow>
                         if ignoreMove cfg then Inr (ops @ adds)
                         else Inr (ops @ adds @
                                   moveLoop path rightHashes targetHashes' (length rightHashes))))
      | _ \<Rightarrow> Inl MissingHashFunction)"
| "matchLeftLoop cfg h path rightArr currentIndex targetHashes [] =
     Inr ([], currentIndex, targetHashes)"
| "matchLeftLoop cfg h path rightArr currentIndex targetHashes (x # xs) =
     (let rightHashes = map (\<lambda>value. h value \<lparr>ctx_side = Right, ctx_path = path\<rparr>) rightArr;
          leftHash = h x \<lparr>ctx_side = Left, ctx_path = path\<rparr>;
          newPathIndex = index_path path currentIndex;
          rightHashIndex = indexOf rightHashes leftHash
      in if 0 \<le> rightHashIndex
         then and_then_state
                (compareObjects cfg newPathIndex x (rightArr ! nat rightHashIndex))
                (matchLeftLoop cfg h path rightArr (Suc currentIndex)
                   (targetHashes @ [leftHash]) xs)
         else and_then_state (Inr [Remove newPathIndex])
                (matchLeftLoop cfg h path rightArr currentIndex targetHashes xs))"
  by pat_completeness auto
termination
proof (relation "inv_image (less_than <*lex*> less_than <*lex*> less_than) compare_measure",
    goal_cases)
  case 1
  show ?case by (intro wf_inv_image wf_lex_prod wf_less_than)
next
  case (2 cfg path l r x)
  then show ?case by (cases l; cases r) (simp_all add: compare_measure_def)
next
  case (3 cfg path l r x)
  then show ?case by (cases l; cases r) (simp_all add: compare_measure_def)
next
  case (6 cfg atTop path lo ro rightKey ks rv np lv)
  then obtain w where w: "map_of lo rightKey = Some w" and wa: "isArray (Some w)"
    by (cases "map_of lo rightKey") auto
  from w have "(rightKey, w) \<in> set lo" by (rule map_of_SomeD)
  then have l: "Suc (size w) \<le> size_list (size_prod (\<lambda>_. 0) size) lo"
    by (rule size_list_estimation') simp
  from 6 have "map_of ro rightKey = Some rv" by simp
  then have "(rightKey, rv) \<in> set ro" by (rule map_of_SomeD)
  then have r: "Suc (size rv) \<le> size_list (size_prod (\<lambda>_. 0) size) ro"
    by (rule size_list_estimation') simp
  have "size_list size (arrayItems (Some w)) < size w" using wa by (cases w) auto
  moreover have "size_list size (arrayItems (Some rv)) < size rv" using 6 by (cases rv) auto
  ultimately show ?case using 6 w l r by (simp add: compare_measure_def)
next
  case (7 cfg atTop path lo ro rightKey ks rv np lv lv')
  then have "map_of lo rightKey = Some lv'" by simp
  then have "(rightKey, lv') \<in> set lo" by (rule map_of_SomeD)
  then have l: "Suc (size lv') \<le> size_list (size_prod (\<lambda>_. 0) size) lo"
    by (rule size_list_estimation') simp
  from 7 have "map_of ro rightKey = Some rv" by simp
  then have "(rightKey, rv) \<in> set ro" by (rule map_of_SomeD)
  then have r: "Suc (size rv) \<le> size_list (size_prod (\<lambda>_. 0) size) ro"
    by (rule size_list_estimation') simp
  show ?case using l r by (simp add: compare_measure_def)
next
  case (17 cfg h path rightArr cur target x xs rhs lh np idx)
  have "indexOf ys lh < int (length ys)" for ys
    by (induction ys) (auto simp: Let_def)
  then have "indexOf rhs lh < int (length rhs)" .
  then have "idx < int (length rhs)" using 17 by simp
  then have "nat idx < length rightArr" using 17 by simp
  then have "rightArr ! nat idx \<in> set rightArr" by simp
  then have "size (rightArr ! nat idx) \<le> size_list size rightArr"
    by (rule size_list_estimation') simp
  then show ?case using 17 by (simp add: compare_measure_def)
qed (simp_all add: compare_measure_def)

declare compareObjects.simps [simp del] compareArrays.simps [simp del]
  compareArrayByHash.simps [simp del]

definition generateJSONPatch :: "'h config \<Rightarrow> json \<Rightarrow> json \<Rightarrow> patch result" where
  "generateJSONPatch cfg beforeJson afterJson = compareObjects cfg [] beforeJson afterJson"

section \<open>The algorithm without the short-circuit of compareArrays\<close>

text \<open>
  The six functions again, with the first line of \<^verbatim>\<open>compareArrays\<close>, the
  serialised-equality short-circuit, deleted, and nothing else changed: every array
  comparison, at the top and inside, chooses its strategy and runs it whatever the two
  arrays are. These definitions follow the words of the specification (``running the
  full algorithm on equal inputs''), to be compared with the functions above, which
  follow the source.
\<close>

function
  compareObjects_full :: "'h config \<Rightarrow> string \<Rightarrow> json \<Rightarrow> json \<Rightarrow> patch result" and
  compareRightKeys_full ::
    "'h config \<Rightarrow> bool \<Rightarrow> string \<Rightarrow> (string \<times> json) list \<Rightarrow> (string \<times> json) list
       \<Rightarrow> string list \<Rightarrow> patch result" and
  compareArrays_full :: "'h config \<Rightarrow> json list \<Rightarrow> json list \<Rightarrow> string \<Rightarrow> patch result" and
  compareArrayByIndex_full ::
    "'h config \<Rightarrow> string \<Rightarrow> nat \<Rightarrow> json list \<Rightarrow> json list \<Rightarrow> patch result" and
  compareArrayByHash_full :: "'h config \<Rightarrow> json list \<Rightarrow> json list \<Rightarrow> string \<Rightarrow> patch result" and
  matchLeftLoop_full ::
    "'h config \<Rightarrow> (json \<Rightarrow> patch_context \<Rightarrow> 'h) \<Rightarrow> string \<Rightarrow> json list \<Rightarrow> nat \<Rightarrow> 'h list
       \<Rightarrow> json list \<Rightarrow> (patch \<times> nat \<times> 'h list) result"
where
  "compareObjects_full cfg path leftJsonValue rightJsonValue =
     (let isArrayAtTop =
            (path = [] \<and> isArray (Some leftJsonValue) \<and> isArray (Some rightJsonValue))
      in
      if isPrimitiveValue leftJsonValue \<or> isPrimitiveValue rightJsonValue
      then (if leftJsonValue \<noteq> rightJsonValue
            then Inr [Replace path rightJsonValue] else Inr [])
      else if isArrayAtTop
      then compareArrays_full cfg (arrayItems (Some leftJsonValue))
             (arrayItems (Some rightJsonValue)) []
      else if isArray (Some leftJsonValue) \<or> isArray (Some rightJsonValue)
      then Inr [Replace path rightJsonValue]
      else and_then
             (compareRightKeys_full cfg isArrayAtTop path (objectEntries leftJsonValue)
                (objectEntries rightJsonValue) (map fst (objectEntries rightJsonValue)))
             (removeLeftKeys cfg isArrayAtTop path (objectEntries leftJsonValue)
                (objectEntries rightJsonValue) (map fst (objectEntries leftJsonValue))))"
| "compareRightKeys_full cfg isArrayAtTop path lo ro [] = Inr []"
| "compareRightKeys_full cfg isArrayAtTop path lo ro (rightKey # ks) =
     (if filtered_out cfg rightKey Right path
      then compareRightKeys_full cfg isArrayAtTop path lo ro ks
      else
        (case map_of ro rightKey of
           None \<Rightarrow> compareRightKeys_full cfg isArrayAtTop path lo ro ks
         | Some rightValue \<Rightarrow>
            (let newPath = key_path isArrayAtTop path rightKey;
                 leftValue = map_of lo rightKey
             in and_then
                  (if isArray leftValue \<and> isArray (Some rightValue)
                   then compareArrays_full cfg (arrayItems leftValue)
                          (arrayItems (Some rightValue)) newPath
                   else if isJsonObject (Some rightValue) then
                     (if isJsonObject leftValue then
                        (case leftValue of
                           Some lv \<Rightarrow> compareObjects_full cfg newPath lv rightValue
                         | None \<Rightarrow> Inr [])
                      else if readsObjectPrototype lo rightKey then
                        Inr (compareWithObjectPrototype cfg newPath (objectEntries rightValue)
                               (map fst (objectEntries rightValue)))
                      else (case hasOwnProperty lo rightKey of
                              Inl e \<Rightarrow> Inl e
                            | Inr own \<Rightarrow>
                                if own then Inr [Replace newPath rightValue]
                                else Inr [Add newPath rightValue]))
                   else (case hasOwnProperty lo rightKey of
                           Inl e \<Rightarrow> Inl e
                         | Inr own \<Rightarrow>
                             if \<not> own then Inr [Add newPath rightValue]
                             else if leftValue \<noteq> Some rightValue
                             then Inr [Replace newPath rightValue]
                             else Inr []))
                  (compareRightKeys_full cfg isArrayAtTop path lo ro ks))))"
| "compareArrays_full cfg leftArr rightArr path =
     (case objectHash cfg of
        NoHash \<Rightarrow> compareArrayByIndex_full cfg path 0 leftArr rightArr
      | _ \<Rightarrow> compareArrayByHash_full cfg leftArr rightArr path)"
| "compareArrayByIndex_full cfg path currentIndex [] [] = Inr []"
| "compareArrayByIndex_full cfg path currentIndex (x # xs) (y # ys) =
     and_then (compareObjects_full cfg (index_path path currentIndex) x y)
              (compareArrayByIndex_full cfg path (Suc currentIndex) xs ys)"
| "compareArrayByIndex_full cfg path currentIndex [] (y # ys) =
     and_then (Inr [Add (index_path path currentIndex) y])
              (compareArrayByIndex_full cfg path (Suc currentIndex) [] ys)"
| "compareArrayByIndex_full cfg path currentIndex (x # xs) [] =
     and_then (Inr [Remove (index_path path currentIndex)])
              (compareArrayByIndex_full cfg path currentIndex xs [])"
| "compareArrayByHash_full cfg leftArr rightArr path =
     (case objectHash cfg of
        HashFn h \<Rightarrow>
          (let rightHashes = map (\<lambda>value. h value \<lparr>ctx_side = Right, ctx_path = path\<rparr>) rightArr
           in case matchLeftLoop_full cfg h path rightArr 0 [] leftArr of
                Inl e \<Rightarrow> Inl e
              | Inr (ops, currentIndex, targetHashes) \<Rightarrow>
                 (let toBeAddedHashes = filter (\<lambda>hash. hash \<notin> set targetHashes) rightHashes
                  in case addLoop path rightArr rightHashes currentIndex targetHashes
                            toBeAddedHashes of
                       (adds, currentIndex', targetHashes') \<Rightarrow>
                         if ignoreMove cfg then Inr (ops @ adds)
                         else Inr (ops @ adds @
                                   moveLoop path rightHashes targetHashes' (length rightHashes))))
      | _ \<Rightarrow> Inl MissingHashFunction)"
| "matchLeftLoop_full cfg h path rightArr currentIndex targetHashes [] =
     Inr ([], currentIndex, targetHashes)"
| "matchLeftLoop_full cfg h path rightArr currentIndex targetHashes (x # xs) =
     (let rightHashes = map (\<lambda>value. h value \<lparr>ctx_side = Right, ctx_path = path\<rparr>) rightArr;
          leftHash = h x \<lparr>ctx_side = Left, ctx_path = path\<rparr>;
          newPathIndex = index_path path currentIndex;
          rightHashIndex = indexOf rightHashes leftHash
      in if 0 \<le> rightHashIndex
         then and_then_state
                (compareObjects_full cfg newPathIndex x (rightArr ! nat rightHashIndex))
                (matchLeftLoop_full cfg h path rightArr (Suc currentIndex)
                   (targetHashes @ [leftHash]) xs)
         else and_then_state (Inr [Remove newPathIndex])
                (matchLeftLoop_full cfg h path rightArr currentIndex targetHashes xs))"
  by pat_completeness auto
termination
proof (relation "inv_image (less_than <*lex*> less_than <*lex*> less_than) compare_measure",
    goal_cases)
  case 1
  show ?case by (intro wf_inv_image wf_lex_prod wf_less_than)
next
  case (2 cfg path l r x)
  then show ?case by (cases l; cases r) (simp_all add: compare_measure_def)
next
  case (3 cfg path l r x)
  then show ?case by (cases l; cases r) (simp_all add: compare_measure_def)
next
  case (6 cfg atTop path lo ro rightKey ks rv np lv)
  then obtain w where w: "map_of lo rightKey = Some w" and wa: "isArray (Some w)"
    by (cases "map_of lo rightKey") auto
  from w have "(rightKey, w) \<in> set lo" by (rule map_of_SomeD)
  then have l: "Suc (size w) \<le> size_list (size_prod (\<lambda>_. 0) size) lo"
    by (rule size_list_estimation') simp
  from 6 have "map_of ro rightKey = Some rv" by simp
  then have "(rightKey, rv) \<in> set ro" by (rule map_of_SomeD)
  then have r: "Suc (size rv) \<le> size_list (size_prod (\<lambda>_. 0) size) ro"
    by (rule size_list_estimation') simp
  have "size_list size (arrayItems (Some w)) < size w" using wa by (cases w) auto
  moreover have "size_list size (arrayItems (Some rv)) < size rv" using 6 by (cases rv) auto
  ultimately show ?case using 6 w l r by (simp add: compare_measure_def)
next
  case (7 cfg atTop path lo ro rightKey ks rv np lv lv')
  then have "map_of lo rightKey = Some lv'" by simp
  then have "(rightKey, lv') \<in> set lo" by (rule map_of_SomeD)
  then have l: "Suc (size lv') \<le> size_list (size_prod (\<lambda>_. 0) size) lo"
    by (rule size_list_estimation') simp
  from 7 have "map_of ro rightKey = Some rv" by simp
  then have "(rightKey, rv) \<in> set ro" by (rule map_of_SomeD)
  then have r: "Suc (size rv) \<le> size_list (size_prod (\<lambda>_. 0) size) ro"
    by (rule size_list_estimation') simp
  show ?case using l r by (simp add: compare_measure_def)
next
  case (17 cfg h path rightArr cur target x xs rhs lh np idx)
  have "indexOf ys lh < int (length ys)" for ys
    by (induction ys) (auto simp: Let_def)
  then have "indexOf rhs lh < int (length rhs)" .
  then have "idx < int (length rhs)" using 17 by simp
  then have "nat idx < length rightArr" using 17 by simp
  then have "rightArr ! nat idx \<in> set rightArr" by simp
  then have "size (rightArr ! nat idx) \<le> size_list size rightArr"
    by (rule size_list_estimation') simp
  then show ?case using 17 by (simp add: compare_measure_def)
qed (simp_all add: compare_measure_def)

declare compareObjects_full.simps [simp del] compareArrays_full.simps [simp del]
  compareArrayByHash_full.simps [simp del]

section \<open>The configurations and callbacks of the examples\<close>

text \<open>\<^verbatim>\<open>{}\<close>: no hash, no filter, moves not ignored.\<close>

definition emptyConfig :: "unit config" where
  "emptyConfig = \<lparr>objectHash = NoHash, propertyFilter = None, ignoreMove = False\<rparr>"

text \<open>
  \<^verbatim>\<open>v => v.id\<close>: the property \<^verbatim>\<open>id\<close> of an object, \<^verbatim>\<open>undefined\<close> (here \<open>None\<close>)
  when it has none. (On \<^verbatim>\<open>null\<close> the callback itself would throw; the examples hash
  objects only.)
\<close>

definition idHash :: "json \<Rightarrow> patch_context \<Rightarrow> json option" where
  "idHash v ctx = map_of (objectEntries v) ''id''"

definition idHashConfig :: "bool \<Rightarrow> json option config" where
  "idHashConfig ignore =
     \<lparr>objectHash = HashFn idHash, propertyFilter = None, ignoreMove = ignore\<rparr>"

text \<open>
  \<^verbatim>\<open>(v, ctx) => ctx.side\<close>, a hash that tells the two sides apart and nothing else, and
  a configuration whose \<^verbatim>\<open>objectHash\<close> is truthy and not a function.
\<close>

definition sideHashConfig :: "side config" where
  "sideHashConfig =
     \<lparr>objectHash = HashFn (\<lambda>v ctx. ctx_side ctx), propertyFilter = None, ignoreMove = False\<rparr>"

definition notCallableConfig :: "unit config" where
  "notCallableConfig = \<lparr>objectHash = NotCallable, propertyFilter = None, ignoreMove = False\<rparr>"

text \<open>
  A \<^verbatim>\<open>propertyFilter\<close> that rejects the key \<^verbatim>\<open>x\<close> on both sides, one that rejects
  it on the left side only, and one that rejects it on the right side only.
\<close>

definition rejectX :: "unit config" where
  "rejectX = \<lparr>objectHash = NoHash, propertyFilter = Some (\<lambda>key ctx. key \<noteq> ''x''),
              ignoreMove = False\<rparr>"

definition rejectXOnLeft :: "unit config" where
  "rejectXOnLeft =
     \<lparr>objectHash = NoHash,
      propertyFilter = Some (\<lambda>key ctx. \<not> (key = ''x'' \<and> ctx_side ctx = Left)),
      ignoreMove = False\<rparr>"

definition rejectXOnRight :: "unit config" where
  "rejectXOnRight =
     \<lparr>objectHash = NoHash,
      propertyFilter = Some (\<lambda>key ctx. \<not> (key = ''x'' \<and> ctx_side ctx = Right)),
      ignoreMove = False\<rparr>"

text \<open>
  A \<^verbatim>\<open>propertyFilter\<close> that rejects the key \<^verbatim>\<open>a/b\<close>.
\<close>

definition rejectSlashKey :: "unit config" where
  "rejectSlashKey = \<lparr>objectHash = NoHash, propertyFilter = Some (\<lambda>key ctx. key \<noteq> ''a/b''),
                     ignoreMove = False\<rparr>"

section \<open>Vocabulary of the properties\<close>

text \<open>
  No object inside the value has an own property named \<^verbatim>\<open>hasOwnProperty\<close>: on such a
  value every call \<^verbatim>\<open>x.hasOwnProperty(...)\<close> of the source reaches the inherited method.
\<close>

fun shadowFree :: "json \<Rightarrow> bool" where
  "shadowFree (JArr xs) = (\<forall>x \<in> set xs. shadowFree x)"
| "shadowFree (JObj i kvs) =
     (''hasOwnProperty'' \<notin> fst ` set kvs \<and> (\<forall>p \<in> set kvs. shadowFree (snd p)))"
| "shadowFree _ = True"

text \<open>
  No array inside the value, nor the value itself if it is an array, has an array among
  its elements. (An array may be the value of a property.)
\<close>

fun noArrayInArray :: "json \<Rightarrow> bool" where
  "noArrayInArray (JArr xs) = (\<forall>x \<in> set xs. \<not> isArray (Some x) \<and> noArrayInArray x)"
| "noArrayInArray (JObj i kvs) = (\<forall>p \<in> set kvs. noArrayInArray (snd p))"
| "noArrayInArray _ = True"

text \<open>
  An object that owns a property \<^verbatim>\<open>constructor\<close>: \<^verbatim>\<open>isJsonObject\<close> refuses it, and as
  the value of a property it is compared by reference.
\<close>

fun ownsConstructor :: "json \<Rightarrow> bool" where
  "ownsConstructor (JObj i kvs) = (''constructor'' \<in> fst ` set kvs)"
| "ownsConstructor _ = False"

text \<open>
  Two values of the same shape hold the same objects where the source compares by
  reference: wherever a property of the one and the property at the same place of the
  other hold objects that own a property \<^verbatim>\<open>constructor\<close>, the two are the same object.
  The places are the elements of arrays at the same index and the properties of objects
  at the same position, from the two values down.
\<close>

fun sameObjects :: "json \<Rightarrow> json \<Rightarrow> bool" where
  "sameObjects (JArr xs) (JArr ys) = list_all2 sameObjects xs ys"
| "sameObjects (JObj i lo) (JObj j ro) =
     list_all2 (\<lambda>l r. if ownsConstructor (snd r) then snd l = snd r
                      else sameObjects (snd l) (snd r)) lo ro"
| "sameObjects _ _ = True"

text \<open>
  What the hash strategy needs of \<^verbatim>\<open>objectHash\<close> to pair every element of the left array
  with the element at the same index of the right array: it is absent (the index
  strategy runs) or a function that, in the contexts of the path, gives the left element
  at each index the hash it gives the right element at that index, and gives two
  elements of the right array the same hash only when they are the same value.
\<close>

definition hashAgrees :: "'h config \<Rightarrow> string \<Rightarrow> json list \<Rightarrow> json list \<Rightarrow> bool" where
  "hashAgrees cfg path xs ys =
     (case objectHash cfg of
        NoHash \<Rightarrow> True
      | NotCallable \<Rightarrow> False
      | HashFn h \<Rightarrow>
          list_all2 (\<lambda>x y. h x \<lparr>ctx_side = Left, ctx_path = path\<rparr>
                           = h y \<lparr>ctx_side = Right, ctx_path = path\<rparr>) xs ys
          \<and> (\<forall>x \<in> set ys. \<forall>y \<in> set ys.
                h x \<lparr>ctx_side = Right, ctx_path = path\<rparr>
                  = h y \<lparr>ctx_side = Right, ctx_path = path\<rparr> \<longrightarrow> x = y))"

text \<open>
  The same of every two arrays at the same place inside two values of the same shape
  compared at \<open>path\<close>, each with the path at which the comparison reaches it: the
  element at index \<open>n\<close> of an array at \<open>p\<close> is reached at \<open>p/n\<close>, the value of the
  property \<open>k\<close> of an object at \<open>p\<close> at \<open>p/k\<close>. What lies inside a property value
  that owns a property \<^verbatim>\<open>constructor\<close> is left out: no comparison enters it.
\<close>

fun hashAgreesInside :: "'h config \<Rightarrow> string \<Rightarrow> json \<Rightarrow> json \<Rightarrow> bool"
  and hashAgreesElements :: "'h config \<Rightarrow> string \<Rightarrow> nat \<Rightarrow> json list \<Rightarrow> json list \<Rightarrow> bool" where
  "hashAgreesInside cfg path (JArr xs) (JArr ys) =
     (hashAgrees cfg path xs ys \<and> hashAgreesElements cfg path 0 xs ys)"
| "hashAgreesInside cfg path (JObj i lo) (JObj j ro) =
     list_all2 (\<lambda>l r. ownsConstructor (snd r)
                      \<or> hashAgreesInside cfg (key_path False path (fst r)) (snd l) (snd r)) lo ro"
| "hashAgreesInside cfg path _ _ = True"
| "hashAgreesElements cfg path n (x # xs) (y # ys) =
     (hashAgreesInside cfg (index_path path n) x y \<and> hashAgreesElements cfg path (Suc n) xs ys)"
| "hashAgreesElements cfg path n [] [] = True"
| "hashAgreesElements cfg path n _ _ = False"

text \<open>
  The path \<open>q\<close> lies strictly below \<open>p\<close>: it is \<open>p\<close>, a slash, and more.
\<close>

definition below :: "string \<Rightarrow> string \<Rightarrow> bool" where
  "below p q = (take (Suc (length p)) q = p @ ''/'')"

text \<open>
  A move between two positions of the array at \<open>p\<close> itself: its target is \<open>p\<close>, a
  slash and one more segment. A move of an array nested in an element has a longer path.
\<close>

definition own_move :: "string \<Rightarrow> operation \<Rightarrow> bool" where
  "own_move p op =
     (case op of
        Move f t \<Rightarrow> below p t \<and> CHR ''/'' \<notin> set (drop (Suc (length p)) t)
      | _ \<Rightarrow> False)"

text \<open>
  The operation is an add or a replace whose path is \<open>q\<close>.
\<close>

definition adds_or_replaces_at :: "string \<Rightarrow> operation \<Rightarrow> bool" where
  "adds_or_replaces_at q op =
     (case op of Add q' v \<Rightarrow> q' = q | Replace q' v \<Rightarrow> q' = q | _ \<Rightarrow> False)"

text \<open>
  An operation that the iteration of the loop over the right keys for the key \<open>k\<close> can
  push: \<open>k\<close> passes the filter, and the operation adds or replaces at \<open>p/k\<close> or points
  strictly below it.
\<close>

definition right_op :: "'h config \<Rightarrow> string \<Rightarrow> string \<Rightarrow> operation \<Rightarrow> bool" where
  "right_op cfg p k op =
     (\<not> filtered_out cfg k Right p
      \<and> (adds_or_replaces_at (p @ CHR ''/'' # k) op \<or> below (p @ CHR ''/'' # k) (op_path op)))"

text \<open>
  The body of the loop over the right keys of \<^verbatim>\<open>compareObjects\<close> for one key, after the
  test of the filter: what the iteration for \<open>rightKey\<close> pushes when the filter lets it
  run.
\<close>

definition rightKeyStep ::
  "'h config \<Rightarrow> bool \<Rightarrow> string \<Rightarrow> (string \<times> json) list \<Rightarrow> (string \<times> json) list \<Rightarrow> string
     \<Rightarrow> patch result" where
  "rightKeyStep cfg isArrayAtTop path lo ro rightKey =
     (case map_of ro rightKey of
        None \<Rightarrow> Inr []
      | Some rightValue \<Rightarrow>
         (let newPath = key_path isArrayAtTop path rightKey;
              leftValue = map_of lo rightKey
          in if isArray leftValue \<and> isArray (Some rightValue)
             then compareArrays cfg (arrayItems leftValue) (arrayItems (Some rightValue)) newPath
             else if isJsonObject (Some rightValue) then
               (if isJsonObject leftValue then
                  (case leftValue of
                     Some lv \<Rightarrow> compareObjects cfg newPath lv rightValue
                   | None \<Rightarrow> Inr [])
                else if readsObjectPrototype lo rightKey then
                  Inr (compareWithObjectPrototype cfg newPath (objectEntries rightValue)
                         (map fst (objectEntries rightValue)))
                else (case hasOwnProperty lo rightKey of
                        Inl e \<Rightarrow> Inl e
                      | Inr own \<Rightarrow>
                          if own then Inr [Replace newPath rightValue]
                          else Inr [Add newPath rightValue]))
             else (case hasOwnProperty lo rightKey of
                     Inl e \<Rightarrow> Inl e
                   | Inr own \<Rightarrow>
                       if \<not> own then Inr [Add newPath rightValue]
                       else if leftValue \<noteq> Some rightValue
                       then Inr [Replace newPath rightValue]
                       else Inr [])))"

text \<open>
  The body of the loop over the left keys for one key, without the test of the filter:
  the two calls of \<^verbatim>\<open>hasOwnProperty\<close> and the remove. It consults no configuration.
\<close>

definition leftKeyStep ::
  "bool \<Rightarrow> string \<Rightarrow> (string \<times> json) list \<Rightarrow> (string \<times> json) list \<Rightarrow> string \<Rightarrow> patch result" where
  "leftKeyStep isArrayAtTop path lo ro leftKey =
     (case hasOwnProperty lo leftKey of
        Inl e \<Rightarrow> Inl e
      | Inr own \<Rightarrow>
          if \<not> own then Inr []
          else (case hasOwnProperty ro leftKey of
                  Inl e \<Rightarrow> Inl e
                | Inr inRight \<Rightarrow>
                    if \<not> inRight then Inr [Remove (key_path isArrayAtTop path leftKey)]
                    else Inr []))"

text \<open>
  A body run for each key of a list in turn, the operations appended.
\<close>

definition for_each :: "(string \<Rightarrow> patch result) \<Rightarrow> string list \<Rightarrow> patch result" where
  "for_each body ks = foldr (\<lambda>k rest. and_then (body k) rest) ks (Inr [])"

text \<open>
  The keys of a list that the filter accepts on one side at a path.
\<close>

definition accepted :: "'h config \<Rightarrow> side \<Rightarrow> string \<Rightarrow> string list \<Rightarrow> string list" where
  "accepted cfg sd path ks = filter (\<lambda>k. \<not> filtered_out cfg k sd path) ks"

text \<open>
  \<^verbatim>\<open>objectHash(value, { side, path })\<close>
\<close>

definition hashAt :: "(json \<Rightarrow> patch_context \<Rightarrow> 'h) \<Rightarrow> side \<Rightarrow> string \<Rightarrow> json \<Rightarrow> 'h" where
  "hashAt h sd path v = h v \<lparr>ctx_side = sd, ctx_path = path\<rparr>"

text \<open>
  The first element of the right array bearing the hash, if any.
\<close>

definition firstBearing ::
  "(json \<Rightarrow> patch_context \<Rightarrow> 'h) \<Rightarrow> string \<Rightarrow> json list \<Rightarrow> 'h \<Rightarrow> json option" where
  "firstBearing h path rightArr hv = find (\<lambda>y. hashAt h Right path y = hv) rightArr"

text \<open>
  The hash of the left element occurs among the hashes of the right array.
\<close>

definition matched :: "(json \<Rightarrow> patch_context \<Rightarrow> 'h) \<Rightarrow> string \<Rightarrow> json list \<Rightarrow> json \<Rightarrow> bool" where
  "matched h path rightArr x = (hashAt h Left path x \<in> set (map (hashAt h Right path) rightArr))"

text \<open>
  The value of \<^verbatim>\<open>currentIndex\<close> when the first loop reaches the left index \<open>i\<close>:
  the number of matched elements before it.
\<close>

definition outputIndex ::
  "(json \<Rightarrow> patch_context \<Rightarrow> 'h) \<Rightarrow> string \<Rightarrow> json list \<Rightarrow> json list \<Rightarrow> nat \<Rightarrow> nat" where
  "outputIndex h path rightArr leftArr i = length (filter (matched h path rightArr) (take i leftArr))"

text \<open>
  What the first loop of \<^verbatim>\<open>compareArrayByHash\<close> does for one left element at the output
  index \<open>n\<close>, said with the first right element bearing its hash.
\<close>

definition elementAt ::
  "'h config \<Rightarrow> (json \<Rightarrow> patch_context \<Rightarrow> 'h) \<Rightarrow> string \<Rightarrow> json list \<Rightarrow> nat \<Rightarrow> json
     \<Rightarrow> patch result" where
  "elementAt cfg h path rightArr n x =
     (case firstBearing h path rightArr (hashAt h Left path x) of
        Some y \<Rightarrow> compareObjects cfg (index_path path n) x y
      | None \<Rightarrow> Inr [Remove (index_path path n)])"

definition elementResult ::
  "'h config \<Rightarrow> (json \<Rightarrow> patch_context \<Rightarrow> 'h) \<Rightarrow> string \<Rightarrow> json list \<Rightarrow> json list \<Rightarrow> nat
     \<Rightarrow> patch result" where
  "elementResult cfg h path rightArr leftArr i =
     elementAt cfg h path rightArr (outputIndex h path rightArr leftArr i) (leftArr ! i)"

text \<open>
  The right elements whose hash no left element bears, in the order of the right array,
  each occurrence counted.
\<close>

definition unmatchedRight ::
  "(json \<Rightarrow> patch_context \<Rightarrow> 'h) \<Rightarrow> string \<Rightarrow> json list \<Rightarrow> json list \<Rightarrow> json list" where
  "unmatchedRight h path leftArr rightArr =
     filter (\<lambda>y. hashAt h Right path y \<notin> set (map (hashAt h Left path) leftArr)) rightArr"

text \<open>
  One add for each of them, at consecutive indices after the matched elements, carrying
  the first right element that bears its hash.
\<close>

definition addedOps ::
  "(json \<Rightarrow> patch_context \<Rightarrow> 'h) \<Rightarrow> string \<Rightarrow> json list \<Rightarrow> json list \<Rightarrow> patch" where
  "addedOps h path leftArr rightArr =
     (let base = outputIndex h path rightArr leftArr (length leftArr);
          us = unmatchedRight h path leftArr rightArr
      in map2 (\<lambda>n y. Add (index_path path n)
                       (case firstBearing h path rightArr (hashAt h Right path y) of
                          Some z \<Rightarrow> z
                        | None \<Rightarrow> y))
           [base..<base + length us] us)"

text \<open>
  The move operation for the pair (\<^verbatim>\<open>currentIndex\<close>, \<^verbatim>\<open>targetIndex\<close>).
\<close>

definition move_op :: "string \<Rightarrow> int \<times> int \<Rightarrow> operation" where
  "move_op path m =
     Move (path @ CHR ''/'' # show_int (fst m)) (path @ CHR ''/'' # show_int (snd m))"

text \<open>
  A move applied to a sequence: the element at the first index is removed and inserted
  at the second.
\<close>

definition apply_move :: "int \<times> int \<Rightarrow> 'a list \<Rightarrow> 'a list" where
  "apply_move m s =
     (let x = s ! nat (fst m);
          rest = take (nat (fst m)) s @ drop (Suc (nat (fst m))) s
      in take (nat (snd m)) rest @ x # drop (nat (snd m)) rest)"

text \<open>
  The shadow sequence after the first \<open>k\<close> moves of a batch.
\<close>

definition shadow_after :: "'a list \<Rightarrow> (int \<times> int) list \<Rightarrow> nat \<Rightarrow> 'a list" where
  "shadow_after s ms k = foldl (\<lambda>s m. apply_move m s) s (take k ms)"

text \<open>
  The shadow sequence when the move loop starts: the hashes of the matched left elements
  in left order, then the added hashes in right order.
\<close>

definition shadow_start :: "'a list \<Rightarrow> 'a list \<Rightarrow> 'a list" where
  "shadow_start leftHashes rightHashes =
     filter (\<lambda>hv. hv \<in> set rightHashes) leftHashes
     @ filter (\<lambda>hv. hv \<notin> set leftHashes) rightHashes"

text \<open>
  The \<open>k\<close>-th move of a batch is the one for the right position \<open>positions ! k\<close>:
  its target is the first right index of the hash found there, its source is the index
  of that hash in the shadow sequence as the first \<open>k\<close> moves have left it (a valid index,
  holding that hash), and the two differ.
\<close>

definition move_step :: "'a list \<Rightarrow> 'a list \<Rightarrow> (int \<times> int) list \<Rightarrow> nat list \<Rightarrow> nat \<Rightarrow> bool" where
  "move_step rightHashes s ms positions k =
     (let hash = rightHashes ! (positions ! k);
          shadow = shadow_after s ms k
      in positions ! k < length rightHashes
         \<and> ms ! k = (indexOf shadow hash, indexOf rightHashes hash)
         \<and> fst (ms ! k) \<noteq> snd (ms ! k)
         \<and> 0 \<le> fst (ms ! k) \<and> nat (fst (ms ! k)) < length shadow
         \<and> shadow ! nat (fst (ms ! k)) = hash)"

text \<open>The equations that evaluate the model on a concrete input.\<close>

lemmas eval_simps =
  generateJSONPatch_def compareObjects.simps compareArrays.simps compareArrayByHash.simps
  stringify_eq_def index_path_def key_path_def show_nat.simps show_int_def digit_char_def
  and_then_def and_then_state_def hasOwnProperty_def filtered_out_def moveArrayElement_def
  splice_start_def readsObjectPrototype_def objectPrototypeKeys_def Let_def
  emptyConfig_def idHash_def idHashConfig_def

text \<open>The same for the algorithm without the short-circuit.\<close>

lemmas eval_full_simps =
  compareObjects_full.simps compareArrays_full.simps compareArrayByHash_full.simps

section \<open>Facts about the helpers\<close>

lemma indexOf_bounds: "indexOf xs x < int (length xs)" "- 1 \<le> indexOf xs x"
  by (induction xs) (auto simp: Let_def)

section \<open>The examples of the specification\<close>

text \<open>
  Claim C1. For \<^verbatim>\<open>before = [{id:1},{id:2}]\<close>, \<^verbatim>\<open>after = [{id:2},{id:1}]\<close> and
  \<^verbatim>\<open>objectHash = v => v.id\<close> the patch is exactly one operation, a move of one element
  (from index 0 to index 1), with no add, remove or replace, whatever the references of
  the four objects.
\<close>

theorem hash_move_detection:
  "generateJSONPatch (idHashConfig False)
     (JArr [JObj a [(''id'', JNum 1)], JObj b [(''id'', JNum 2)]])
     (JArr [JObj c [(''id'', JNum 2)], JObj d [(''id'', JNum 1)]])
   = Inr [Move ''/0'' ''/1'']"
  by (simp add: eval_simps)

text \<open>
  Claim C2, as amended. For \<^verbatim>\<open>before = [1,2,3]\<close>, \<^verbatim>\<open>after = [1,3]\<close> and the empty
  configuration the comparison is positional: index 1 holds 2 on the left and 3 on the
  right, so it is replaced, and index 2, which only the left has, is removed. The patch
  is a replace followed by a remove, with no move.
\<close>

theorem index_array_replace_then_remove:
  "generateJSONPatch emptyConfig (JArr [JNum 1, JNum 2, JNum 3]) (JArr [JNum 1, JNum 3])
   = Inr [Replace ''/1'' (JNum 3), Remove ''/2'']"
  by (simp add: eval_simps)

text \<open>
  Claim C2, as stated, fails: the patch for these inputs is not a single remove
  operation, whatever its path.
\<close>

theorem index_array_not_single_remove:
  "\<not> (\<exists>p. generateJSONPatch emptyConfig (JArr [JNum 1, JNum 2, JNum 3])
            (JArr [JNum 1, JNum 3]) = Inr [Remove p])"
  by (simp add: eval_simps)

text \<open>
  Claim C6. With the inputs of C1 and \<^verbatim>\<open>config.array.ignoreMove\<close> set, the patch is
  empty: the elements are matched by hash, nothing differs inside them, and no move is
  emitted.
\<close>

theorem ignoreMove_suppression:
  "generateJSONPatch (idHashConfig True)
     (JArr [JObj a [(''id'', JNum 1)], JObj b [(''id'', JNum 2)]])
     (JArr [JObj c [(''id'', JNum 2)], JObj d [(''id'', JNum 1)]])
   = Inr []"
  by (simp add: eval_simps)

text \<open>
  Claim C7. For \<^verbatim>\<open>before = {a:1,b:2}\<close>, \<^verbatim>\<open>after = {b:3,c:4}\<close> and the empty
  configuration the patch is replace \<^verbatim>\<open>/b\<close> (value 3), add \<^verbatim>\<open>/c\<close> (value 4), remove
  \<^verbatim>\<open>/a\<close>, in this order: the pass over the right keys comes before the removals.
\<close>

theorem object_replace_add_remove:
  "generateJSONPatch emptyConfig
     (JObj a [(''a'', JNum 1), (''b'', JNum 2)]) (JObj b [(''b'', JNum 3), (''c'', JNum 4)])
   = Inr [Replace ''/b'' (JNum 3), Add ''/c'' (JNum 4), Remove ''/a'']"
  by (simp add: eval_simps)

section \<open>Comparing a value with itself\<close>

lemma and_then_Nil [simp]: "and_then (Inr []) b = b"
  by (cases b) (auto simp: and_then_def)

lemma and_then_Inl [simp]: "and_then (Inl e) b = Inl e"
  by (simp add: and_then_def)

lemma removeLeftKeys_same:
  assumes "''hasOwnProperty'' \<notin> fst ` set kvs" "set ks \<subseteq> fst ` set kvs"
  shows "removeLeftKeys cfg atTop path kvs kvs ks = Inr []"
  using assms(2)
proof (induction ks)
  case Nil
  show ?case by simp
next
  case (Cons k ks)
  then show ?case using assms(1) by (simp add: hasOwnProperty_def)
qed

lemma compareRightKeys_same:
  assumes own: "''hasOwnProperty'' \<notin> fst ` set kvs"
    and ih: "\<And>k v p. map_of kvs k = Some v \<Longrightarrow> isJsonObject (Some v) \<Longrightarrow>
                compareObjects cfg p v v = Inr []"
    and ks: "set ks \<subseteq> fst ` set kvs"
  shows "compareRightKeys cfg atTop path kvs kvs ks = Inr []"
  using ks
proof (induction ks)
  case Nil
  show ?case by simp
next
  case (Cons k ks)
  then have rest: "compareRightKeys cfg atTop path kvs kvs ks = Inr []" by simp
  from Cons.prems have "k \<in> fst ` set kvs" by simp
  then obtain v where v: "map_of kvs k = Some v"
    by (metis domD dom_map_of_conv_image_fst)
  show ?case
  proof (cases "filtered_out cfg k Right path")
    case True
    then show ?thesis using rest by simp
  next
    case False
    have "k \<in> fst ` set kvs" by fact
    then show ?thesis
      using False v rest own ih [OF v]
      by (simp add: compareArrays.simps stringify_eq_def hasOwnProperty_def
            readsObjectPrototype_def Let_def)
  qed
qed

text \<open>
  A value compared with itself gives no operation, when no object inside it has an own
  property \<^verbatim>\<open>hasOwnProperty\<close>. (An array below the top level is the exception the code
  makes: \<^verbatim>\<open>compareObjects\<close> replaces it without looking inside.)
\<close>

lemma compareObjects_same:
  "shadowFree a \<Longrightarrow> \<not> isArray (Some a) \<or> path = [] \<Longrightarrow> compareObjects cfg path a a = Inr []"
proof (induction a arbitrary: path)
  case (JArr xs)
  then show ?case by (simp add: compareObjects.simps compareArrays.simps stringify_eq_def)
next
  case (JObj i kvs)
  have own: "''hasOwnProperty'' \<notin> fst ` set kvs" using JObj.prems by simp
  have ih: "compareObjects cfg p v v = Inr []"
    if "map_of kvs k = Some v" "isJsonObject (Some v)" for k v p
  proof -
    from that(1) have mem: "(k, v) \<in> set kvs" by (rule map_of_SomeD)
    then have "shadowFree v" using JObj.prems by auto
    moreover have "\<not> isArray (Some v)" using that(2) by (cases v) auto
    ultimately show ?thesis using JObj.IH [of "(k, v)" v p] mem by simp
  qed
  show ?case
    using compareRightKeys_same [where ks = "map fst kvs", OF own ih]
      removeLeftKeys_same [where ks = "map fst kvs", OF own]
    by (simp add: compareObjects.simps)
qed (simp_all add: compareObjects.simps)

lemma generateJSONPatch_same: "shadowFree a \<Longrightarrow> generateJSONPatch cfg a a = Inr []"
  by (simp add: generateJSONPatch_def compareObjects_same)

text \<open>
  Claim C3 fails on the value \<^verbatim>\<open>{hasOwnProperty: 1}\<close>: compared with itself, under any
  configuration, the call \<^verbatim>\<open>leftJsonValue.hasOwnProperty(...)\<close> finds the number 1 where
  it expects the inherited method, and throws. (The two references may be the same, the
  value compared with itself, or differ, the value compared with a copy of it.)
\<close>

theorem same_value_throws:
  "generateJSONPatch cfg (JObj i [(''hasOwnProperty'', JNum 1)]) (JObj j [(''hasOwnProperty'', JNum 1)]) = Inl TypeError"
  by (cases "filtered_out cfg ''hasOwnProperty'' Right []") (simp_all add: generateJSONPatch_def compareObjects.simps hasOwnProperty_def key_path_def and_then_def)

text \<open>
  Claim C5 fails on \<^verbatim>\<open>before = {hasOwnProperty: 1}\<close>, \<^verbatim>\<open>after = {a: 1}\<close> and the empty
  configuration: no hash comparison is involved, and the function throws a
  \<^verbatim>\<open>TypeError\<close>.
\<close>

theorem hasOwnProperty_key_throws:
  "generateJSONPatch emptyConfig (JObj i [(''hasOwnProperty'', JNum 1)]) (JObj j [(''a'', JNum 1)])
   = Inl TypeError"
  by (simp add: eval_simps)

section \<open>References and the inherited prototype\<close>

text \<open>
  Two objects that own a property \<^verbatim>\<open>constructor\<close> and are the values of a property
  are compared by reference: two texts parsed apart give a replace, one value passed
  twice gives nothing.
\<close>

lemma objects_compared_by_reference:
  "generateJSONPatch emptyConfig (JObj 1 [(''a'', JObj 2 [(''constructor'', JStr ''x'')])])
       (JObj 3 [(''a'', JObj 4 [(''constructor'', JStr ''x'')])])
     = Inr [Replace ''/a'' (JObj 4 [(''constructor'', JStr ''x'')])]
   \<and> generateJSONPatch emptyConfig (JObj 1 [(''a'', JObj 2 [(''constructor'', JStr ''x'')])])
       (JObj 1 [(''a'', JObj 2 [(''constructor'', JStr ''x'')])])
     = Inr []"
  by (simp add: eval_simps)

text \<open>
  The read of a missing key \<^verbatim>\<open>__proto__\<close> gives \<^verbatim>\<open>Object.prototype\<close>, which the
  source takes for a JSON object and compares key by key: the properties of the right
  value are added one by one, or replaced where \<^verbatim>\<open>Object.prototype\<close> owns the name.
\<close>

lemma inherited_prototype_compared:
  "generateJSONPatch emptyConfig (JObj 1 [])
       (JObj 2 [(''__proto__'', JObj 3 [(''a'', JNum 1), (''toString'', JNum 2)])])
     = Inr [Add ''/__proto__/a'' (JNum 1), Replace ''/__proto__/toString'' (JNum 2)]
   \<and> generateJSONPatch emptyConfig (JObj 1 []) (JObj 2 [(''__proto__'', JNum 1)])
     = Inr [Add ''/__proto__'' (JNum 1)]"
  by (simp add: eval_simps)

section \<open>The equality gate of compareArrays\<close>

lemma indexOf_nonneg_iff: "0 \<le> indexOf xs x \<longleftrightarrow> x \<in> set xs"
  by (induction xs) (auto simp: Let_def)

lemma indexOf_nth: "x \<in> set xs \<Longrightarrow> xs ! nat (indexOf xs x) = x"
proof (induction xs)
  case Nil
  then show ?case by simp
next
  case (Cons y ys)
  show ?case
  proof (cases "y = x")
    case True
    then show ?thesis by simp
  next
    case False
    with Cons.prems have mem: "x \<in> set ys" by simp
    then have "0 \<le> indexOf ys x" by (simp add: indexOf_nonneg_iff)
    then show ?thesis using False Cons.IH [OF mem] by (simp add: Let_def nat_add_distrib)
  qed
qed

lemma indexOf_less: "x \<in> set xs \<Longrightarrow> nat (indexOf xs x) < length xs"
  using indexOf_bounds(1) [of xs x] indexOf_nonneg_iff [of xs x] by simp

lemma moveLoop_same: "moveLoop path hs hs n = []"
  by (induction n) (simp_all add: Let_def)

lemma forget_array:
  assumes "forget (JArr xs) = forget r"
  shows "\<exists>ys. r = JArr ys \<and> list_all2 (\<lambda>x y. forget x = forget y) xs ys"
proof -
  from assms obtain ys where r: "r = JArr ys" by (cases r) auto
  with assms have "map forget xs = map forget ys" by simp
  then have "list_all2 (\<lambda>x y. forget x = forget y) xs ys"
    by (simp add: list_all2_conv_all_nth map_equality_iff)
  with r show ?thesis by blast
qed

lemma forget_object:
  assumes "forget (JObj i lo) = forget r"
  shows "\<exists>j ro. r = JObj j ro \<and> map fst lo = map fst ro
           \<and> list_all2 (\<lambda>l r. forget (snd l) = forget (snd r)) lo ro"
proof -
  from assms obtain j ro where r: "r = JObj j ro" by (cases r) auto
  with assms have eq: "map (map_prod id forget) lo = map (map_prod id forget) ro" by simp
  then have "map fst (map (map_prod id forget) lo) = map fst (map (map_prod id forget) ro)"
    by simp
  then have k: "map fst lo = map fst ro" by (simp add: comp_def)
  from eq have "map snd (map (map_prod id forget) lo) = map snd (map (map_prod id forget) ro)"
    by simp
  then have "map (\<lambda>l. forget (snd l)) lo = map (\<lambda>r. forget (snd r)) ro" by (simp add: comp_def)
  then have "list_all2 (\<lambda>l r. forget (snd l) = forget (snd r)) lo ro"
    by (simp add: list_all2_conv_all_nth map_equality_iff)
  with r k show ?thesis by blast
qed

lemma forget_primitive: "forget a = forget b \<Longrightarrow> isPrimitiveValue b \<Longrightarrow> a = b"
  by (cases a; cases b) auto

lemma forget_isArray: "forget a = forget b \<Longrightarrow> isArray (Some a) = isArray (Some b)"
  by (cases a; cases b) auto

lemma forget_isJsonObject:
  "forget a = forget b \<Longrightarrow> isJsonObject (Some a) = isJsonObject (Some b)"
proof (cases a; cases b)
  fix i lo j ro
  assume "forget a = forget b" "a = JObj i lo" "b = JObj j ro"
  then have "map fst lo = map fst ro" using forget_object [of i lo b] by auto
  then have "fst ` set lo = fst ` set ro" by (metis set_map)
  then show ?thesis using \<open>a = JObj i lo\<close> \<open>b = JObj j ro\<close> by simp
qed auto

lemma not_array_not_object:
  "\<not> isArray (Some v) \<Longrightarrow> \<not> isJsonObject (Some v) \<Longrightarrow> isPrimitiveValue v \<or> ownsConstructor v"
  by (cases v) auto

text \<open>
  Two property lists with the same keys in the same order, related position by position:
  a key read in the right list is read in the left list, and the two values are related.
\<close>

lemma corresponding:
  assumes "map fst lo = map fst ro" "list_all2 R lo ro" "map_of ro k = Some rv"
  shows "\<exists>lv. map_of lo k = Some lv \<and> R (k, lv) (k, rv)"
  using assms(2,1,3)
proof (induction rule: list_all2_induct)
  case Nil
  then show ?case by simp
next
  case (Cons l ls r rs)
  then show ?case by (cases l; cases r) (auto split: if_splits)
qed

lemma removeLeftKeys_same_keys:
  assumes "''hasOwnProperty'' \<notin> fst ` set lo" "''hasOwnProperty'' \<notin> fst ` set ro"
    "set ks \<subseteq> fst ` set ro"
  shows "removeLeftKeys cfg atTop path lo ro ks = Inr []"
  using assms(3)
proof (induction ks)
  case Nil
  show ?case by simp
next
  case (Cons k ks)
  then show ?case using assms(1,2) by (simp add: hasOwnProperty_def)
qed

lemma compareRightKeys_full_agree:
  assumes own: "''hasOwnProperty'' \<notin> fst ` set lo"
    and each: "\<And>k rv. map_of ro k = Some rv \<Longrightarrow>
        \<exists>lv. map_of lo k = Some lv
          \<and> (isArray (Some rv) \<longrightarrow> isArray (Some lv)
                \<and> compareArrays_full cfg (arrayItems (Some lv)) (arrayItems (Some rv))
                      (key_path atTop path k) = Inr [])
          \<and> (isJsonObject (Some rv) \<longrightarrow> isJsonObject (Some lv)
                \<and> compareObjects_full cfg (key_path atTop path k) lv rv = Inr [])
          \<and> (\<not> isArray (Some rv) \<and> \<not> isJsonObject (Some rv) \<longrightarrow> lv = rv)"
  shows "compareRightKeys_full cfg atTop path lo ro ks = Inr []"
proof (induction ks)
  case Nil
  show ?case by simp
next
  case (Cons k ks)
  show ?case
  proof (cases "filtered_out cfg k Right path")
    case True
    then show ?thesis using Cons.IH by simp
  next
    case nf: False
    show ?thesis
    proof (cases "map_of ro k")
      case None
      then show ?thesis using nf Cons.IH by simp
    next
      case (Some rv)
      from each [OF Some] obtain lv where lv: "map_of lo k = Some lv"
        and arr: "isArray (Some rv) \<longrightarrow> isArray (Some lv)
                \<and> compareArrays_full cfg (arrayItems (Some lv)) (arrayItems (Some rv))
                      (key_path atTop path k) = Inr []"
        and obj: "isJsonObject (Some rv) \<longrightarrow> isJsonObject (Some lv)
                \<and> compareObjects_full cfg (key_path atTop path k) lv rv = Inr []"
        and other: "\<not> isArray (Some rv) \<and> \<not> isJsonObject (Some rv) \<longrightarrow> lv = rv"
        by blast
      from lv have mem: "k \<in> fst ` set lo" by (metis domI dom_map_of_conv_image_fst)
      consider (a) "isArray (Some rv)" | (b) "\<not> isArray (Some rv)" "isJsonObject (Some rv)"
        | (c) "\<not> isArray (Some rv)" "\<not> isJsonObject (Some rv)" by blast
      then show ?thesis
      proof cases
        case a
        then show ?thesis using nf Some lv arr Cons.IH by (simp add: Let_def)
      next
        case b
        then show ?thesis using nf Some lv obj Cons.IH by (simp add: Let_def)
      next
        case c
        then show ?thesis
          using nf Some lv other own mem Cons.IH by (simp add: Let_def hasOwnProperty_def)
      qed
    qed
  qed
qed

lemma compareArrayByIndex_full_agree:
  assumes "length xs = length ys"
    and "\<forall>n < length xs. compareObjects_full cfg (index_path p (c + n)) (xs ! n) (ys ! n) = Inr []"
  shows "compareArrayByIndex_full cfg p c xs ys = Inr []"
  using assms
proof (induction xs ys arbitrary: c rule: list_induct2)
  case Nil
  show ?case by simp
next
  case (Cons x xs y ys)
  from Cons.prems have first: "compareObjects_full cfg (index_path p c) x y = Inr []" by auto
  have "\<forall>n < length xs.
          compareObjects_full cfg (index_path p (Suc c + n)) (xs ! n) (ys ! n) = Inr []"
  proof (intro allI impI)
    fix n
    assume "n < length xs"
    then have "Suc n < length (x # xs)" by simp
    with Cons.prems have "compareObjects_full cfg (index_path p (c + Suc n)) ((x # xs) ! Suc n)
                            ((y # ys) ! Suc n) = Inr []" by blast
    then show "compareObjects_full cfg (index_path p (Suc c + n)) (xs ! n) (ys ! n) = Inr []"
      by simp
  qed
  from Cons.IH [OF this] first show ?case by simp
qed

lemma matchLeftLoop_full_agree:
  assumes inj: "\<forall>x \<in> set ys. \<forall>y \<in> set ys.
                h x \<lparr>ctx_side = Right, ctx_path = p\<rparr>
                  = h y \<lparr>ctx_side = Right, ctx_path = p\<rparr> \<longrightarrow> x = y"
    and each: "\<forall>n < length xs. \<exists>y \<in> set ys.
                h (xs ! n) \<lparr>ctx_side = Left, ctx_path = p\<rparr>
                  = h y \<lparr>ctx_side = Right, ctx_path = p\<rparr>
                \<and> compareObjects_full cfg (index_path p (c + n)) (xs ! n) y = Inr []"
  shows "matchLeftLoop_full cfg h p ys c t xs =
           Inr ([], c + length xs,
                t @ map (\<lambda>value. h value \<lparr>ctx_side = Left, ctx_path = p\<rparr>) xs)"
  using each
proof (induction xs arbitrary: c t)
  case Nil
  show ?case by simp
next
  case (Cons x xs)
  let ?hr = "\<lambda>value. h value \<lparr>ctx_side = Right, ctx_path = p\<rparr>"
  let ?hl = "\<lambda>value. h value \<lparr>ctx_side = Left, ctx_path = p\<rparr>"
  from Cons.prems have "\<exists>y \<in> set ys. ?hl ((x # xs) ! 0) = ?hr y
      \<and> compareObjects_full cfg (index_path p (c + 0)) ((x # xs) ! 0) y = Inr []" by blast
  then obtain y where y: "y \<in> set ys" and hx: "?hl x = ?hr y"
    and cmp: "compareObjects_full cfg (index_path p c) x y = Inr []" by auto
  have rest: "\<forall>n < length xs. \<exists>y \<in> set ys. ?hl (xs ! n) = ?hr y
                \<and> compareObjects_full cfg (index_path p (Suc c + n)) (xs ! n) y = Inr []"
  proof (intro allI impI)
    fix n
    assume "n < length xs"
    then have "Suc n < length (x # xs)" by simp
    with Cons.prems have "\<exists>y \<in> set ys. ?hl ((x # xs) ! Suc n) = ?hr y
        \<and> compareObjects_full cfg (index_path p (c + Suc n)) ((x # xs) ! Suc n) y = Inr []"
      by blast
    then show "\<exists>y \<in> set ys. ?hl (xs ! n) = ?hr y
        \<and> compareObjects_full cfg (index_path p (Suc c + n)) (xs ! n) y = Inr []" by simp
  qed
  have mem: "?hr y \<in> set (map ?hr ys)" using y by simp
  have found: "0 \<le> indexOf (map ?hr ys) (?hr y)" using mem by (simp only: indexOf_nonneg_iff)
  have lt: "nat (indexOf (map ?hr ys) (?hr y)) < length ys"
    using indexOf_less [OF mem] by simp
  have "map ?hr ys ! nat (indexOf (map ?hr ys) (?hr y)) = ?hr y" by (rule indexOf_nth [OF mem])
  then have "?hr (ys ! nat (indexOf (map ?hr ys) (?hr y))) = ?hr y" using lt by simp
  then have same: "ys ! nat (indexOf (map ?hr ys) (?hr y)) = y" using inj y lt by simp
  show ?case
    using found same cmp hx Cons.IH [OF rest, of "t @ [?hl x]"]
    by (simp add: Let_def and_then_state_def)
qed

lemma compareArrayByHash_full_agree:
  assumes h: "objectHash cfg = HashFn h"
    and lr: "list_all2 (\<lambda>x y. h x \<lparr>ctx_side = Left, ctx_path = p\<rparr>
                              = h y \<lparr>ctx_side = Right, ctx_path = p\<rparr>) xs ys"
    and inj: "\<forall>x \<in> set ys. \<forall>y \<in> set ys.
                h x \<lparr>ctx_side = Right, ctx_path = p\<rparr>
                  = h y \<lparr>ctx_side = Right, ctx_path = p\<rparr> \<longrightarrow> x = y"
    and cmp: "\<forall>n < length xs. compareObjects_full cfg (index_path p n) (xs ! n) (ys ! n) = Inr []"
  shows "compareArrayByHash_full cfg xs ys p = Inr []"
proof -
  let ?hr = "\<lambda>value. h value \<lparr>ctx_side = Right, ctx_path = p\<rparr>"
  let ?hl = "\<lambda>value. h value \<lparr>ctx_side = Left, ctx_path = p\<rparr>"
  have len: "length xs = length ys" using lr by (rule list_all2_lengthD)
  have eq: "map ?hl xs = map ?hr ys"
    using lr by (simp add: list_all2_conv_all_nth map_equality_iff)
  have each: "\<forall>n < length xs. \<exists>y \<in> set ys. ?hl (xs ! n) = ?hr y
                \<and> compareObjects_full cfg (index_path p (0 + n)) (xs ! n) y = Inr []"
  proof (intro allI impI)
    fix n
    assume n: "n < length xs"
    then have "?hl (xs ! n) = ?hr (ys ! n)" using lr by (auto simp: list_all2_conv_all_nth)
    moreover have "compareObjects_full cfg (index_path p (0 + n)) (xs ! n) (ys ! n) = Inr []"
      using cmp n by simp
    moreover have "ys ! n \<in> set ys" using n len by simp
    ultimately show "\<exists>y \<in> set ys. ?hl (xs ! n) = ?hr y
        \<and> compareObjects_full cfg (index_path p (0 + n)) (xs ! n) y = Inr []" by blast
  qed
  have loop: "matchLeftLoop_full cfg h p ys 0 [] xs = Inr ([], length xs, map ?hr ys)"
    using matchLeftLoop_full_agree [OF inj each, of "[]"] eq by simp
  have none: "filter (\<lambda>hash. hash \<notin> set (map ?hr ys)) (map ?hr ys) = []"
    by (simp add: filter_empty_conv)
  show ?thesis
    by (simp only: compareArrayByHash_full.simps h object_hash.case Let_def loop sum.case
          prod.case none addLoop.simps moveLoop_same append_Nil if_cancel)
qed

lemma hashAgreesElements_nth:
  "hashAgreesElements cfg p c xs ys \<Longrightarrow>
     length xs = length ys
     \<and> (\<forall>n < length xs. hashAgreesInside cfg (index_path p (c + n)) (xs ! n) (ys ! n))"
proof (induction xs arbitrary: ys c)
  case Nil
  then show ?case by (cases ys) simp_all
next
  case (Cons x xs)
  then obtain y ys' where ys: "ys = y # ys'" by (cases ys) auto
  with Cons.prems have first: "hashAgreesInside cfg (index_path p c) x y"
    and rest: "hashAgreesElements cfg p (Suc c) xs ys'" by simp_all
  from Cons.IH [OF rest] have len: "length xs = length ys'"
    and ih: "\<forall>n < length xs. hashAgreesInside cfg (index_path p (Suc c + n)) (xs ! n) (ys' ! n)"
    by simp_all
  have "hashAgreesInside cfg (index_path p (c + n)) ((x # xs) ! n) (ys ! n)"
    if "n < length (x # xs)" for n
  proof (cases n)
    case 0
    then show ?thesis using first ys by simp
  next
    case (Suc m)
    then show ?thesis using ih that ys by simp
  qed
  then show ?case using len ys by simp
qed

lemma ownsConstructor_not_others:
  "ownsConstructor v \<Longrightarrow> \<not> isArray (Some v) \<and> \<not> isJsonObject (Some v)"
  by (cases v) auto

text \<open>
  Two values that serialise alike, with no array among the elements of an array, no own
  property \<^verbatim>\<open>hasOwnProperty\<close>, the same objects where the source compares by reference
  and a hash that agrees on every array: the comparison without the short-circuit pushes
  nothing, be it of two arrays (at the top, or as the values of a property) or of two
  other values.
\<close>

lemma full_agree:
  fixes cfg :: "'h config"
  shows "forget l = forget r \<Longrightarrow> noArrayInArray l \<Longrightarrow> shadowFree l \<Longrightarrow> sameObjects l r \<Longrightarrow>
     hashAgreesInside cfg p l r \<Longrightarrow>
     (isArray (Some l) \<longrightarrow>
        compareArrays_full cfg (arrayItems (Some l)) (arrayItems (Some r)) p = Inr [])
     \<and> (\<not> isArray (Some l) \<longrightarrow> compareObjects_full cfg p l r = Inr [])"
proof (induction l arbitrary: r p)
  case JNull
  then have "r = JNull" by (cases r) auto
  then show ?case by (simp add: compareObjects_full.simps)
next
  case (JBool b)
  then have "r = JBool b" by (cases r) auto
  then show ?case by (simp add: compareObjects_full.simps)
next
  case (JNum n)
  then have "r = JNum n" by (cases r) auto
  then show ?case by (simp add: compareObjects_full.simps)
next
  case (JStr s)
  then have "r = JStr s" by (cases r) auto
  then show ?case by (simp add: compareObjects_full.simps)
next
  case (JArr xs)
  from forget_array [OF JArr.prems(1)] obtain ys where r: "r = JArr ys"
    and fg: "list_all2 (\<lambda>x y. forget x = forget y) xs ys" by blast
  have len: "length xs = length ys" using fg by (rule list_all2_lengthD)
  have so: "list_all2 sameObjects xs ys" using JArr.prems(4) r by simp
  have ha: "hashAgrees cfg p xs ys" using JArr.prems(5) r by simp
  have "hashAgreesElements cfg p 0 xs ys" using JArr.prems(5) r by simp
  from hashAgreesElements_nth [OF this]
  have hi: "\<forall>n < length xs. hashAgreesInside cfg (index_path p n) (xs ! n) (ys ! n)" by simp
  have cmp: "\<forall>n < length xs. compareObjects_full cfg (index_path p n) (xs ! n) (ys ! n) = Inr []"
  proof (intro allI impI)
    fix n
    assume n: "n < length xs"
    then have mem: "xs ! n \<in> set xs" by simp
    have "forget (xs ! n) = forget (ys ! n)" using fg n by (simp add: list_all2_conv_all_nth)
    moreover have "noArrayInArray (xs ! n)" "\<not> isArray (Some (xs ! n))"
      using JArr.prems(2) mem by simp_all
    moreover have "shadowFree (xs ! n)" using JArr.prems(3) mem by simp
    moreover have "sameObjects (xs ! n) (ys ! n)" using so n by (simp add: list_all2_conv_all_nth)
    moreover have "hashAgreesInside cfg (index_path p n) (xs ! n) (ys ! n)" using hi n by simp
    ultimately show "compareObjects_full cfg (index_path p n) (xs ! n) (ys ! n) = Inr []"
      using JArr.IH [OF mem, of "ys ! n" "index_path p n"] by simp
  qed
  have "compareArrays_full cfg xs ys p = Inr []"
  proof (cases "objectHash cfg")
    case NoHash
    then show ?thesis
      using compareArrayByIndex_full_agree [OF len, of cfg p 0] cmp
      by (simp add: compareArrays_full.simps)
  next
    case NotCallable
    then show ?thesis using ha by (simp add: hashAgrees_def)
  next
    case (HashFn h)
    then show ?thesis
      using ha compareArrayByHash_full_agree [OF HashFn _ _ cmp]
      by (simp add: compareArrays_full.simps hashAgrees_def)
  qed
  then show ?case using r by simp
next
  case (JObj i lo)
  from forget_object [OF JObj.prems(1)] obtain j ro where r: "r = JObj j ro"
    and keys: "map fst lo = map fst ro"
    and fg: "list_all2 (\<lambda>l r. forget (snd l) = forget (snd r)) lo ro" by blast
  have keyset: "fst ` set lo = fst ` set ro" using keys by (metis set_map)
  have own: "''hasOwnProperty'' \<notin> fst ` set lo" using JObj.prems(3) by simp
  have so: "list_all2 (\<lambda>l r. if ownsConstructor (snd r) then snd l = snd r
                      else sameObjects (snd l) (snd r)) lo ro"
    using JObj.prems(4) r by simp
  have hi: "list_all2 (\<lambda>l r. ownsConstructor (snd r)
                \<or> hashAgreesInside cfg (key_path False p (fst r)) (snd l) (snd r)) lo ro"
    using JObj.prems(5) r by simp
  have each: "\<exists>lv. map_of lo k = Some lv
          \<and> (isArray (Some rv) \<longrightarrow> isArray (Some lv)
                \<and> compareArrays_full cfg (arrayItems (Some lv)) (arrayItems (Some rv))
                      (key_path False p k) = Inr [])
          \<and> (isJsonObject (Some rv) \<longrightarrow> isJsonObject (Some lv)
                \<and> compareObjects_full cfg (key_path False p k) lv rv = Inr [])
          \<and> (\<not> isArray (Some rv) \<and> \<not> isJsonObject (Some rv) \<longrightarrow> lv = rv)"
    if rv: "map_of ro k = Some rv" for k rv
  proof -
    from corresponding [OF keys fg rv] obtain lv where lv: "map_of lo k = Some lv"
      and f: "forget lv = forget rv" by auto
    from corresponding [OF keys so rv] lv
    have s: "if ownsConstructor rv then lv = rv else sameObjects lv rv" by auto
    have h: "ownsConstructor rv \<or> hashAgreesInside cfg (key_path False p k) lv rv"
      using corresponding [OF keys hi rv] lv by auto
    from lv have mem: "(k, lv) \<in> set lo" by (rule map_of_SomeD)
    have na: "noArrayInArray lv" using JObj.prems(2) mem by force
    have sf: "shadowFree lv" using JObj.prems(3) mem by force
    have ih: "(isArray (Some lv) \<longrightarrow>
                 compareArrays_full cfg (arrayItems (Some lv)) (arrayItems (Some rv))
                   (key_path False p k) = Inr [])
              \<and> (\<not> isArray (Some lv) \<longrightarrow> compareObjects_full cfg (key_path False p k) lv rv = Inr [])"
      if "\<not> ownsConstructor rv"
      using JObj.IH [of "(k, lv)" lv rv "key_path False p k"] mem f na sf s h that by simp
    have arr: "isArray (Some lv) = isArray (Some rv)" using f by (rule forget_isArray)
    have obj: "isJsonObject (Some lv) = isJsonObject (Some rv)" using f by (rule forget_isJsonObject)
    have a: "isArray (Some rv) \<longrightarrow> isArray (Some lv)
                \<and> compareArrays_full cfg (arrayItems (Some lv)) (arrayItems (Some rv))
                      (key_path False p k) = Inr []"
      using ih arr ownsConstructor_not_others [of rv] by auto
    have b: "isJsonObject (Some rv) \<longrightarrow> isJsonObject (Some lv)
                \<and> compareObjects_full cfg (key_path False p k) lv rv = Inr []"
    proof
      assume o: "isJsonObject (Some rv)"
      then have "\<not> ownsConstructor rv" using ownsConstructor_not_others [of rv] by auto
      moreover have "\<not> isArray (Some lv)" using o obj by (cases lv) auto
      ultimately show "isJsonObject (Some lv)
          \<and> compareObjects_full cfg (key_path False p k) lv rv = Inr []"
        using ih o obj by auto
    qed
    have c: "\<not> isArray (Some rv) \<and> \<not> isJsonObject (Some rv) \<longrightarrow> lv = rv"
    proof
      assume "\<not> isArray (Some rv) \<and> \<not> isJsonObject (Some rv)"
      then have "isPrimitiveValue rv \<or> ownsConstructor rv" by (simp add: not_array_not_object)
      then show "lv = rv" using s forget_primitive [OF f] by auto
    qed
    show ?thesis using lv a b c by blast
  qed
  have right: "compareRightKeys_full cfg False p lo ro (map fst ro) = Inr []"
    using compareRightKeys_full_agree [OF own each] by blast
  have left: "removeLeftKeys cfg False p lo ro (map fst lo) = Inr []"
    using removeLeftKeys_same_keys [of lo ro "map fst lo"] own keyset by simp
  show ?case using r right left by (simp add: compareObjects_full.simps)
qed

text \<open>
  Claim C8, as amended. Two arrays that serialise alike, in which no array has an array
  among its elements (\<open>noArrayInArray\<close>) and no object owns a property
  \<^verbatim>\<open>hasOwnProperty\<close> (\<open>shadowFree\<close>), which hold the same object wherever the values of
  a property own a property \<^verbatim>\<open>constructor\<close> (\<open>sameObjects\<close>), under a configuration
  whose hash is absent or agrees on the two arrays and on every two arrays inside them
  that the comparison reaches (\<open>hashAgreesInside\<close>): the reconciliation without the
  short-circuit emits no operation, as the short-circuit does.
\<close>

theorem equal_arrays_without_gate:
  assumes "stringify_eq (JArr xs) (JArr ys)"
    and "noArrayInArray (JArr xs)" and "shadowFree (JArr xs)"
    and "sameObjects (JArr xs) (JArr ys)"
    and "hashAgreesInside cfg path (JArr xs) (JArr ys)"
  shows "compareArrays_full cfg xs ys path = Inr [] \<and> compareArrays cfg xs ys path = Inr []"
proof -
  have "compareArrays_full cfg xs ys path = Inr []"
    using full_agree [of "JArr xs" "JArr ys" cfg path] assms
    by (simp add: stringify_eq_def)
  moreover have "compareArrays cfg xs ys path = Inr []"
    using assms(1) by (simp add: compareArrays.simps)
  ultimately show ?thesis by simp
qed

text \<open>
  Claim C8, as stated, fails on \<^verbatim>\<open>[[1]]\<close> with the empty configuration: the two
  arrays serialise alike and the short-circuit emits nothing, and the index strategy run
  on the same two arrays replaces the element at index 0, since \<^verbatim>\<open>compareObjects\<close>
  replaces any array that is an element of an array. It fails in the same way where the
  array with an array element is the value of a property, on \<^verbatim>\<open>[{a: [[1]]}]\<close>: there
  the short-circuit that is missing is the one of a nested call of \<^verbatim>\<open>compareArrays\<close>.
\<close>

theorem gate_is_not_an_optimisation:
  "stringify_eq (JArr [JArr [JNum 1]]) (JArr [JArr [JNum 1]])
   \<and> compareArrays emptyConfig [JArr [JNum 1]] [JArr [JNum 1]] [] = Inr []
   \<and> compareArrays_full emptyConfig [JArr [JNum 1]] [JArr [JNum 1]] []
       = Inr [Replace ''/0'' (JArr [JNum 1])]
   \<and> stringify_eq (JArr [JObj 1 [(''a'', JArr [JArr [JNum 1]])]])
         (JArr [JObj 2 [(''a'', JArr [JArr [JNum 1]])]])
   \<and> compareArrays emptyConfig [JObj 1 [(''a'', JArr [JArr [JNum 1]])]]
         [JObj 2 [(''a'', JArr [JArr [JNum 1]])]] [] = Inr []
   \<and> compareArrays_full emptyConfig [JObj 1 [(''a'', JArr [JArr [JNum 1]])]]
         [JObj 2 [(''a'', JArr [JArr [JNum 1]])]] []
       = Inr [Replace ''/0/a/0'' (JArr [JNum 1])]"
  by (simp add: eval_simps eval_full_simps)

text \<open>
  The amended claim C8 at \<^verbatim>\<open>[1, {a: [2], b: o}]\<close> against a second array of the same
  text that holds the same object \<^verbatim>\<open>o = {constructor: "x"}\<close>, with the index strategy,
  and at \<^verbatim>\<open>[{id:1, tags:[{id:7}]}, {id:2}]\<close> against a copy of it that shares no
  object with it, with the hash \<^verbatim>\<open>v => v.id\<close>, which reconciles the array at
  \<^verbatim>\<open>/0/tags\<close> too.
\<close>

theorem equal_arrays_without_gate_witness:
  "stringify_eq
     (JArr [JNum 1, JObj 1 [(''a'', JArr [JNum 2]), (''b'', JObj 2 [(''constructor'', JStr ''x'')])]])
     (JArr [JNum 1, JObj 3 [(''a'', JArr [JNum 2]), (''b'', JObj 2 [(''constructor'', JStr ''x'')])]])
   \<and> sameObjects
     (JArr [JNum 1, JObj 1 [(''a'', JArr [JNum 2]), (''b'', JObj 2 [(''constructor'', JStr ''x'')])]])
     (JArr [JNum 1, JObj 3 [(''a'', JArr [JNum 2]), (''b'', JObj 2 [(''constructor'', JStr ''x'')])]])
   \<and> compareArrays_full emptyConfig
       [JNum 1, JObj 1 [(''a'', JArr [JNum 2]), (''b'', JObj 2 [(''constructor'', JStr ''x'')])]]
       [JNum 1, JObj 3 [(''a'', JArr [JNum 2]), (''b'', JObj 2 [(''constructor'', JStr ''x'')])]] []
     = Inr []
   \<and> compareArrays emptyConfig
       [JNum 1, JObj 1 [(''a'', JArr [JNum 2]), (''b'', JObj 2 [(''constructor'', JStr ''x'')])]]
       [JNum 1, JObj 3 [(''a'', JArr [JNum 2]), (''b'', JObj 2 [(''constructor'', JStr ''x'')])]] []
     = Inr []
   \<and> stringify_eq
     (JArr [JObj 1 [(''id'', JNum 1), (''tags'', JArr [JObj 2 [(''id'', JNum 7)]])], JObj 3 [(''id'', JNum 2)]])
     (JArr [JObj 4 [(''id'', JNum 1), (''tags'', JArr [JObj 5 [(''id'', JNum 7)]])], JObj 6 [(''id'', JNum 2)]])
   \<and> hashAgreesInside (idHashConfig False) []
     (JArr [JObj 1 [(''id'', JNum 1), (''tags'', JArr [JObj 2 [(''id'', JNum 7)]])], JObj 3 [(''id'', JNum 2)]])
     (JArr [JObj 4 [(''id'', JNum 1), (''tags'', JArr [JObj 5 [(''id'', JNum 7)]])], JObj 6 [(''id'', JNum 2)]])
   \<and> compareArrays_full (idHashConfig False)
       [JObj 1 [(''id'', JNum 1), (''tags'', JArr [JObj 2 [(''id'', JNum 7)]])], JObj 3 [(''id'', JNum 2)]]
       [JObj 4 [(''id'', JNum 1), (''tags'', JArr [JObj 5 [(''id'', JNum 7)]])], JObj 6 [(''id'', JNum 2)]] []
     = Inr []
   \<and> compareArrays (idHashConfig False)
       [JObj 1 [(''id'', JNum 1), (''tags'', JArr [JObj 2 [(''id'', JNum 7)]])], JObj 3 [(''id'', JNum 2)]]
       [JObj 4 [(''id'', JNum 1), (''tags'', JArr [JObj 5 [(''id'', JNum 7)]])], JObj 6 [(''id'', JNum 2)]] []
     = Inr []"
  using equal_arrays_without_gate
      [of "[JNum 1, JObj 1 [(''a'', JArr [JNum 2]), (''b'', JObj 2 [(''constructor'', JStr ''x'')])]]"
          "[JNum 1, JObj 3 [(''a'', JArr [JNum 2]), (''b'', JObj 2 [(''constructor'', JStr ''x'')])]]"
          emptyConfig "[]"]
    equal_arrays_without_gate
      [of "[JObj 1 [(''id'', JNum 1), (''tags'', JArr [JObj 2 [(''id'', JNum 7)]])], JObj 3 [(''id'', JNum 2)]]"
          "[JObj 4 [(''id'', JNum 1), (''tags'', JArr [JObj 5 [(''id'', JNum 7)]])], JObj 6 [(''id'', JNum 2)]]"
          "idHashConfig False" "[]"]
  by (simp add: stringify_eq_def hashAgrees_def emptyConfig_def idHashConfig_def idHash_def)

text \<open>
  The other conditions of the amended claim are needed too. Without the short-circuit,
  with the index strategy: an own property \<^verbatim>\<open>hasOwnProperty\<close> makes the comparison
  throw, even of an array with itself; and two objects that own a property
  \<^verbatim>\<open>constructor\<close> and are the values of a property are replaced when they are two
  objects, however alike.
\<close>

lemma structure_conditions_needed:
  "compareArrays_full emptyConfig [JObj 1 [(''hasOwnProperty'', JNum 1)]]
       [JObj 1 [(''hasOwnProperty'', JNum 1)]] []
     = Inl TypeError
   \<and> compareArrays_full emptyConfig [JObj 1 [(''a'', JObj 2 [(''constructor'', JStr ''x'')])]]
       [JObj 3 [(''a'', JObj 4 [(''constructor'', JStr ''x'')])]] []
     = Inr [Replace ''/0/a'' (JObj 4 [(''constructor'', JStr ''x'')])]"
  by (simp add: eval_simps eval_full_simps)

text \<open>
  And of the hash: an \<^verbatim>\<open>objectHash\<close> that is truthy and not a function makes every
  reconciliation throw, of two empty arrays too; a hash that differs from side to side
  pairs nothing, so that the element is removed and added; and a hash that two different
  elements share pairs the second of them with the first.
\<close>

lemma hash_conditions_needed:
  "compareArrays_full notCallableConfig [] [] [] = Inl MissingHashFunction
   \<and> compareArrays_full sideHashConfig [JNum 1] [JNum 1] []
     = Inr [Remove ''/0'', Add ''/0'' (JNum 1)]
   \<and> compareArrays_full (idHashConfig False)
       [JObj 1 [(''id'', JNum 1), (''a'', JNum 1)], JObj 2 [(''id'', JNum 1), (''a'', JNum 2)]]
       [JObj 1 [(''id'', JNum 1), (''a'', JNum 1)], JObj 2 [(''id'', JNum 1), (''a'', JNum 2)]] []
     = Inr [Replace ''/1/a'' (JNum 1)]"
  by (simp add: eval_simps eval_full_simps notCallableConfig_def sideHashConfig_def)

section \<open>Where the operations of a comparison point\<close>

lemma below_iff: "below p q \<longleftrightarrow> (\<exists>rest. q = p @ CHR ''/'' # rest)"
proof
  assume "below p q"
  then have "take (Suc (length p)) q = p @ ''/''" by (simp add: below_def)
  then have "q = (p @ ''/'') @ drop (Suc (length p)) q"
    by (metis append_take_drop_id)
  then show "\<exists>rest. q = p @ CHR ''/'' # rest" by auto
next
  assume "\<exists>rest. q = p @ CHR ''/'' # rest"
  then show "below p q" by (auto simp: below_def)
qed

lemma below_append [simp]: "below p (p @ CHR ''/'' # rest)"
  by (auto simp: below_iff)

lemma below_trans: "below p q \<Longrightarrow> below q s \<Longrightarrow> below p s"
  by (auto simp: below_iff)

lemma key_path_eq [simp]: "key_path t p k = p @ CHR ''/'' # k"
  by (simp add: key_path_def)

lemma below_index_path [simp]: "below p (index_path p c)"
  by (simp add: index_path_def)

lemma and_then_Inr:
  "and_then a b = Inr ops \<longleftrightarrow> (\<exists>x y. a = Inr x \<and> b = Inr y \<and> ops = x @ y)"
  by (cases a; cases b) (auto simp: and_then_def)

lemma and_then_state_Inr:
  "and_then_state a b = Inr res \<longleftrightarrow>
     (\<exists>x y st. a = Inr x \<and> b = Inr (y, st) \<and> res = (x @ y, st))"
  by (cases a; cases b) (auto simp: and_then_state_def)

lemma removeLeftKeys_ops:
  "removeLeftKeys cfg t p lo ro ks = Inr ops \<Longrightarrow>
     \<forall>op \<in> set ops. \<exists>k \<in> set ks. \<not> filtered_out cfg k Left p \<and> op = Remove (p @ CHR ''/'' # k)"
proof (induction ks arbitrary: ops)
  case Nil
  then show ?case by simp
next
  case (Cons k ks)
  from Cons.prems show ?case
    by (simp add: and_then_Inr split: sum.splits if_splits)
       (use Cons.IH in \<open>fastforce+\<close>)
qed

lemma addLoop_ops:
  "addLoop p ra rh c t hs = (ops, st) \<Longrightarrow> \<forall>op \<in> set ops. (\<exists>i v. op = Add (index_path p i) v)"
proof (induction hs arbitrary: c t ops st)
  case Nil
  then show ?case by simp
next
  case (Cons x hs)
  from Cons.prems obtain ops' where
    rec: "addLoop p ra rh (Suc c) (t @ [x]) hs = (ops', st)"
    and ops: "ops = Add (index_path p c) (ra ! nat (indexOf rh x)) # ops'"
    by (auto split: prod.splits)
  from Cons.IH [OF rec] ops show ?case by auto
qed

lemma moveLoop_ops:
  "\<forall>op \<in> set (moveLoop p rh t n). \<exists>a b. op = Move (p @ CHR ''/'' # show_int a) (p @ CHR ''/'' # show_int b)"
  by (induction n arbitrary: t) (auto simp: Let_def)

lemma compareWithObjectPrototype_ops:
  "\<forall>op \<in> set (compareWithObjectPrototype cfg p ro ks). below p (op_path op)"
  by (induction ks) (auto simp: Let_def split: option.splits)

lemma right_op_below: "right_op cfg p k op \<Longrightarrow> below p (op_path op)"
  by (auto simp: right_op_def adds_or_replaces_at_def below_iff split: operation.splits)

lemma not_own_move_deeper:
  "below (index_path p c) (op_path op) \<Longrightarrow> \<not> own_move p op"
  by (auto simp: own_move_def index_path_def below_iff split: operation.splits)

text \<open>
  Every operation of a comparison at the path \<open>p\<close> points at \<open>p\<close> or strictly below
  it: \<^verbatim>\<open>compareObjects\<close> replaces at \<open>p\<close> itself or pushes below it; the loop over
  the right keys pushes, for a key that passes the filter, an add or a replace at the
  key's path or an operation below it; the array comparisons push below \<open>p\<close>; and the
  first loop of \<^verbatim>\<open>compareArrayByHash\<close> pushes no move of the array at \<open>p\<close> itself.
\<close>

lemma ops_paths:
  fixes cfg :: "'h config"
  shows "\<forall>ops. compareObjects cfg p l r = Inr ops \<longrightarrow>
           (\<forall>op \<in> set ops. op = Replace p r \<or> below p (op_path op))"
    and "\<forall>ops. compareRightKeys cfg atTop p lo ro ks = Inr ops \<longrightarrow>
           (\<forall>op \<in> set ops. \<exists>k \<in> set ks. right_op cfg p k op)"
    and "\<forall>ops. compareArrays cfg la ra p = Inr ops \<longrightarrow>
           (\<forall>op \<in> set ops. below p (op_path op))"
    and "\<forall>ops. compareArrayByIndex cfg p c la ra = Inr ops \<longrightarrow>
           (\<forall>op \<in> set ops. below p (op_path op))"
    and "\<forall>ops. compareArrayByHash cfg la ra p = Inr ops \<longrightarrow>
           (\<forall>op \<in> set ops. below p (op_path op))"
    and "\<forall>res. matchLeftLoop cfg h p ra c t xs = Inr res \<longrightarrow>
           (\<forall>op \<in> set (fst res). below p (op_path op) \<and> \<not> own_move p op)"
proof (induction cfg p l r and cfg atTop p lo ro ks and cfg la ra p and cfg p c la ra
    and cfg la ra p and cfg h p ra c t xs
    rule: compareObjects_compareRightKeys_compareArrays_compareArrayByIndex_compareArrayByHash_matchLeftLoop.induct)
  case (1 cfg path l r)
  show ?case
  proof (intro allI impI ballI)
    fix ops op
    assume res: "compareObjects cfg path l r = Inr ops" and op: "op \<in> set ops"
    consider (prim) "isPrimitiveValue l \<or> isPrimitiveValue r"
      | (top) "\<not> (isPrimitiveValue l \<or> isPrimitiveValue r)"
          "path = [] \<and> isArray (Some l) \<and> isArray (Some r)"
      | (mismatch) "\<not> (isPrimitiveValue l \<or> isPrimitiveValue r)"
          "\<not> (path = [] \<and> isArray (Some l) \<and> isArray (Some r))"
          "isArray (Some l) \<or> isArray (Some r)"
      | (objs) "\<not> (isPrimitiveValue l \<or> isPrimitiveValue r)"
          "\<not> (path = [] \<and> isArray (Some l) \<and> isArray (Some r))"
          "\<not> (isArray (Some l) \<or> isArray (Some r))"
      by blast
    then show "op = Replace path r \<or> below path (op_path op)"
    proof cases
      case prim
      then show ?thesis using res op by (auto simp: compareObjects.simps split: if_splits)
    next
      case top
      then have "compareArrays cfg (arrayItems (Some l)) (arrayItems (Some r)) [] = Inr ops"
        using res by (simp add: compareObjects.simps)
      then show ?thesis using "1.IH"(1) [OF refl top(1)] top(2) op by auto
    next
      case mismatch
      then show ?thesis using res op by (auto simp: compareObjects.simps)
    next
      case objs
      then obtain x y where
        x: "compareRightKeys cfg False path (objectEntries l) (objectEntries r)
              (map fst (objectEntries r)) = Inr x"
        and y: "removeLeftKeys cfg False path (objectEntries l) (objectEntries r)
              (map fst (objectEntries l)) = Inr y"
        and ops: "ops = x @ y"
        using res by (auto simp: compareObjects.simps and_then_Inr)
      from op ops consider "op \<in> set x" | "op \<in> set y" by auto
      then show ?thesis
      proof cases
        case 1
        have "\<forall>ops. compareRightKeys cfg False path (objectEntries l) (objectEntries r)
                (map fst (objectEntries r)) = Inr ops \<longrightarrow>
              (\<forall>op \<in> set ops. \<exists>k \<in> set (map fst (objectEntries r)). right_op cfg path k op)"
          using "1.IH"(2) [OF refl objs(1) objs(2) objs(3)] objs(2) by simp
        with x 1 obtain k where "right_op cfg path k op" by blast
        then show ?thesis by (simp add: right_op_below)
      next
        case 2
        then show ?thesis using removeLeftKeys_ops [OF y] by auto
      qed
    qed
  qed
next
  case (2 cfg isArrayAtTop path lo ro)
  show ?case by simp
next
  case (3 cfg isArrayAtTop path lo ro rightKey ks)
  show ?case
  proof (intro allI impI ballI)
    fix ops op
    assume res: "compareRightKeys cfg isArrayAtTop path lo ro (rightKey # ks) = Inr ops"
      and op: "op \<in> set ops"
    show "\<exists>k \<in> set (rightKey # ks). right_op cfg path k op"
    proof (cases "filtered_out cfg rightKey Right path")
      case True
      then have "compareRightKeys cfg isArrayAtTop path lo ro ks = Inr ops" using res by simp
      then show ?thesis using "3.IH"(1) [OF True] op by auto
    next
      case nf: False
      show ?thesis
      proof (cases "map_of ro rightKey")
        case None
        then have "compareRightKeys cfg isArrayAtTop path lo ro ks = Inr ops"
          using res nf by simp
        then show ?thesis using "3.IH"(2) [OF nf None] op by auto
      next
        case (Some rv)
        let ?np = "path @ CHR ''/'' # rightKey"
        let ?step = "if isArray (map_of lo rightKey) \<and> isArray (Some rv)
                   then compareArrays cfg (arrayItems (map_of lo rightKey))
                          (arrayItems (Some rv)) ?np
                   else if isJsonObject (Some rv) then
                     (if isJsonObject (map_of lo rightKey) then
                        (case map_of lo rightKey of
                           Some lv \<Rightarrow> compareObjects cfg ?np lv rv
                         | None \<Rightarrow> Inr [])
                      else if readsObjectPrototype lo rightKey then
                        Inr (compareWithObjectPrototype cfg ?np (objectEntries rv)
                               (map fst (objectEntries rv)))
                      else (case hasOwnProperty lo rightKey of
                              Inl e \<Rightarrow> Inl e
                            | Inr own \<Rightarrow>
                                if own then Inr [Replace ?np rv]
                                else Inr [Add ?np rv]))
                   else (case hasOwnProperty lo rightKey of
                           Inl e \<Rightarrow> Inl e
                         | Inr own \<Rightarrow>
                             if \<not> own then Inr [Add ?np rv]
                             else if map_of lo rightKey \<noteq> Some rv
                             then Inr [Replace ?np rv]
                             else Inr [])"
        from res nf Some obtain x y where
          x: "?step = Inr x"
          and y: "compareRightKeys cfg isArrayAtTop path lo ro ks = Inr y"
          and ops: "ops = x @ y"
          by (auto simp: Let_def and_then_Inr)
        from op ops consider "op \<in> set x" | "op \<in> set y" by auto
        then show ?thesis
        proof cases
          case 2
          then show ?thesis using "3.IH"(5) [OF nf Some refl refl] y by auto
        next
          case 1
          have "adds_or_replaces_at ?np op \<or> below ?np (op_path op)"
          proof (cases "isArray (map_of lo rightKey) \<and> isArray (Some rv)")
            case True
            then show ?thesis
              using "3.IH"(3) [OF nf Some refl refl True] x 1 by auto
          next
            case na: False
            show ?thesis
            proof (cases "isJsonObject (Some rv) \<and> isJsonObject (map_of lo rightKey)")
              case True
              then obtain lv where lv: "map_of lo rightKey = Some lv"
                by (cases "map_of lo rightKey") auto
              with True na x have "compareObjects cfg ?np lv rv = Inr x"
                by (auto split: if_splits)
              then have "op = Replace ?np rv \<or> below ?np (op_path op)"
                using "3.IH"(4) [OF nf Some refl refl na _ _ lv] True 1 lv by auto
              then show ?thesis by (auto simp: adds_or_replaces_at_def)
            next
              case False
              then show ?thesis
                using x 1 na compareWithObjectPrototype_ops [of cfg ?np "objectEntries rv"]
                by (auto simp: adds_or_replaces_at_def split: if_splits sum.splits)
            qed
          qed
          then have "right_op cfg path rightKey op" using nf by (simp add: right_op_def)
          then show ?thesis by simp
        qed
      qed
    qed
  qed
next
  case (4 cfg leftArr rightArr path)
  show ?case
  proof (intro allI impI ballI)
    fix ops op
    assume res: "compareArrays cfg leftArr rightArr path = Inr ops" and op: "op \<in> set ops"
    show "below path (op_path op)"
    proof (cases "stringify_eq (JArr leftArr) (JArr rightArr)")
      case True
      then show ?thesis using res op by (simp add: compareArrays.simps)
    next
      case False
      then show ?thesis
        using res op "4.IH"
        by (cases "objectHash cfg") (auto simp: compareArrays.simps)
    qed
  qed
next
  case (5 cfg path currentIndex)
  show ?case by simp
next
  case (6 cfg path currentIndex x xs y ys)
  show ?case
  proof (intro allI impI ballI)
    fix ops op
    assume res: "compareArrayByIndex cfg path currentIndex (x # xs) (y # ys) = Inr ops"
      and op: "op \<in> set ops"
    from res obtain a b where
      a: "compareObjects cfg (index_path path currentIndex) x y = Inr a"
      and b: "compareArrayByIndex cfg path (Suc currentIndex) xs ys = Inr b"
      and ops: "ops = a @ b"
      by (auto simp: and_then_Inr)
    from op ops consider "op \<in> set a" | "op \<in> set b" by auto
    then show "below path (op_path op)"
    proof cases
      case 1
      then have "op = Replace (index_path path currentIndex) y
                 \<or> below (index_path path currentIndex) (op_path op)"
        using "6.IH"(1) a by auto
      then show ?thesis
        using below_trans [OF below_index_path, of path currentIndex "op_path op"] by auto
    next
      case 2
      then show ?thesis using "6.IH"(2) b by auto
    qed
  qed
next
  case (7 cfg path currentIndex y ys)
  then show ?case by (auto simp: and_then_Inr)
next
  case (8 cfg path currentIndex x xs)
  then show ?case by (auto simp: and_then_Inr)
next
  case (9 cfg leftArr rightArr path)
  show ?case
  proof (intro allI impI ballI)
    fix ops op
    assume res: "compareArrayByHash cfg leftArr rightArr path = Inr ops" and op: "op \<in> set ops"
    from res obtain h where h: "objectHash cfg = HashFn h"
      by (cases "objectHash cfg") (auto simp: compareArrayByHash.simps)
    let ?rh = "map (\<lambda>value. h value \<lparr>ctx_side = Right, ctx_path = path\<rparr>) rightArr"
    from res h obtain lops c t where
      loop: "matchLeftLoop cfg h path rightArr 0 [] leftArr = Inr (lops, c, t)"
      by (auto simp: compareArrayByHash.simps Let_def split: sum.splits)
    obtain adds c' t' where
      adds: "addLoop path rightArr ?rh c t (filter (\<lambda>hash. hash \<notin> set t) ?rh) = (adds, c', t')"
      by (cases "addLoop path rightArr ?rh c t (filter (\<lambda>hash. hash \<notin> set t) ?rh)") auto
    from res h loop adds have
      "ops = lops @ adds \<or> ops = lops @ adds @ moveLoop path ?rh t' (length ?rh)"
      by (auto simp: compareArrayByHash.simps Let_def split: if_splits)
    with op consider "op \<in> set lops" | "op \<in> set adds"
      | "op \<in> set (moveLoop path ?rh t' (length ?rh))" by auto
    then show "below path (op_path op)"
    proof cases
      case 1
      then show ?thesis using "9.IH" [OF h refl] loop by auto
    next
      case 2
      then show ?thesis using addLoop_ops [OF adds] by (auto simp: index_path_def)
    next
      case 3
      then show ?thesis using moveLoop_ops [of path ?rh t' "length ?rh"] by auto
    qed
  qed
next
  case (10 cfg h path rightArr currentIndex targetHashes)
  show ?case by simp
next
  case (11 cfg h path rightArr currentIndex targetHashes x xs)
  let ?rh = "map (\<lambda>value. h value \<lparr>ctx_side = Right, ctx_path = path\<rparr>) rightArr"
  let ?lh = "h x \<lparr>ctx_side = Left, ctx_path = path\<rparr>"
  let ?np = "index_path path currentIndex"
  show ?case
  proof (intro allI impI ballI)
    fix res op
    assume res: "matchLeftLoop cfg h path rightArr currentIndex targetHashes (x # xs) = Inr res"
      and op: "op \<in> set (fst res)"
    show "below path (op_path op) \<and> \<not> own_move path op"
    proof (cases "0 \<le> indexOf ?rh ?lh")
      case True
      with res obtain a b st where
        a: "compareObjects cfg ?np x (rightArr ! nat (indexOf ?rh ?lh)) = Inr a"
        and b: "matchLeftLoop cfg h path rightArr (Suc currentIndex) (targetHashes @ [?lh]) xs
                  = Inr (b, st)"
        and r: "res = (a @ b, st)"
        by (auto simp: Let_def and_then_state_Inr)
      from op r consider "op \<in> set a" | "op \<in> set b" by auto
      then show ?thesis
      proof cases
        case 1
        then have d: "op = Replace ?np (rightArr ! nat (indexOf ?rh ?lh))
                   \<or> below ?np (op_path op)"
          using "11.IH"(1) [OF refl refl refl refl True] a by auto
        then have "below path (op_path op)"
          using below_trans [OF below_index_path, of path currentIndex "op_path op"] by auto
        moreover have "\<not> own_move path op"
          using d not_own_move_deeper [of path currentIndex op] by (auto simp: own_move_def)
        ultimately show ?thesis by simp
      next
        case 2
        then show ?thesis using "11.IH"(2) [OF refl refl refl refl True] b by auto
      qed
    next
      case False
      with res obtain b st where
        b: "matchLeftLoop cfg h path rightArr currentIndex targetHashes xs = Inr (b, st)"
        and r: "res = (Remove ?np # b, st)"
        by (auto simp: Let_def and_then_state_Inr)
      from op r consider "op = Remove ?np" | "op \<in> set b" by auto
      then show ?thesis
      proof cases
        case 1
        then show ?thesis by (simp add: own_move_def)
      next
        case 2
        then show ?thesis using "11.IH"(3) [OF refl refl refl refl False] b by auto
      qed
    qed
  qed
qed

section \<open>The property filter\<close>

lemma for_each_Nil [simp]: "for_each body [] = Inr []"
  by (simp add: for_each_def)

lemma for_each_Cons [simp]: "for_each body (k # ks) = and_then (body k) (for_each body ks)"
  by (simp add: for_each_def)

lemma accepted_Nil [simp]: "accepted cfg sd p [] = []"
  by (simp add: accepted_def)

lemma accepted_Cons [simp]:
  "accepted cfg sd p (k # ks)
   = (if filtered_out cfg k sd p then accepted cfg sd p ks else k # accepted cfg sd p ks)"
  by (simp add: accepted_def)

lemma set_accepted [simp]:
  "set (accepted cfg sd p ks) = {k \<in> set ks. \<not> filtered_out cfg k sd p}"
  by (simp add: accepted_def)

text \<open>
  The loop over the right keys runs the body for the keys that the filter accepts on the
  right side, in their order, and for no other key.
\<close>

lemma compareRightKeys_steps:
  "compareRightKeys cfg atTop p lo ro ks
   = for_each (rightKeyStep cfg atTop p lo ro) (accepted cfg Right p ks)"
proof (induction ks)
  case Nil
  show ?case by simp
next
  case (Cons k ks)
  show ?case
  proof (cases "filtered_out cfg k Right p")
    case True
    then show ?thesis using Cons.IH by simp
  next
    case False
    then show ?thesis
      using Cons.IH by (cases "map_of ro k") (simp_all add: rightKeyStep_def Let_def)
  qed
qed

text \<open>
  The loop over the left keys, when it does not throw, runs the body for the keys that
  the filter accepts on the left side. (It calls \<^verbatim>\<open>hasOwnProperty\<close> before it asks the
  filter, so it throws on a key the filter rejects too.)
\<close>

lemma removeLeftKeys_steps:
  "removeLeftKeys cfg atTop p lo ro ks = Inr ops \<Longrightarrow>
   for_each (leftKeyStep atTop p lo ro) (accepted cfg Left p ks) = Inr ops"
proof (induction ks arbitrary: ops)
  case Nil
  then show ?case by simp
next
  case (Cons k ks)
  from Cons.prems obtain own where o: "hasOwnProperty lo k = Inr own"
    by (cases "hasOwnProperty lo k") auto
  show ?case
  proof (cases "\<not> own \<or> filtered_out cfg k Left p")
    case True
    then have "removeLeftKeys cfg atTop p lo ro ks = Inr ops" using Cons.prems o by simp
    then have rest: "for_each (leftKeyStep atTop p lo ro) (accepted cfg Left p ks) = Inr ops"
      by (rule Cons.IH)
    show ?thesis
    proof (cases "filtered_out cfg k Left p")
      case True
      then show ?thesis using rest by simp
    next
      case False
      with \<open>\<not> own \<or> filtered_out cfg k Left p\<close> have "\<not> own" by simp
      then have "leftKeyStep atTop p lo ro k = Inr []" using o by (simp add: leftKeyStep_def)
      then show ?thesis using False rest by simp
    qed
  next
    case False
    then have own: own and nf: "\<not> filtered_out cfg k Left p" by simp_all
    from Cons.prems o own nf obtain inRight where i: "hasOwnProperty ro k = Inr inRight"
      by (cases "hasOwnProperty ro k") auto
    have step: "leftKeyStep atTop p lo ro k
                = Inr (if \<not> inRight then [Remove (key_path atTop p k)] else [])"
      using o own i by (simp add: leftKeyStep_def)
    from Cons.prems o own nf i obtain y where
      y: "removeLeftKeys cfg atTop p lo ro ks = Inr y"
      and ops: "ops = (if \<not> inRight then [Remove (key_path atTop p k)] else []) @ y"
      by (auto simp: and_then_Inr split: if_splits)
    from Cons.IH [OF y] show ?thesis using nf step ops by (simp add: and_then_def)
  qed
qed

lemma for_each_Inr:
  "for_each body ks = Inr ops \<Longrightarrow> k \<in> set ks \<Longrightarrow> \<exists>x. body k = Inr x \<and> set x \<subseteq> set ops"
proof (induction ks arbitrary: ops)
  case Nil
  then show ?case by simp
next
  case (Cons a ks)
  from Cons.prems(1) obtain x y where x: "body a = Inr x" and y: "for_each body ks = Inr y"
    and ops: "ops = x @ y" by (auto simp: and_then_Inr)
  show ?case
  proof (cases "k = a")
    case True
    then show ?thesis using x ops by auto
  next
    case False
    then have "k \<in> set ks" using Cons.prems(2) by simp
    from Cons.IH [OF y this] show ?thesis using ops by auto
  qed
qed

lemma for_each_origin:
  "for_each body ks = Inr ops \<Longrightarrow> op \<in> set ops \<Longrightarrow>
     \<exists>k \<in> set ks. \<exists>x. body k = Inr x \<and> op \<in> set x"
proof (induction ks arbitrary: ops)
  case Nil
  then show ?case by simp
next
  case (Cons a ks)
  from Cons.prems(1) obtain x y where x: "body a = Inr x" and y: "for_each body ks = Inr y"
    and ops: "ops = x @ y" by (auto simp: and_then_Inr)
  from Cons.prems(2) ops consider "op \<in> set x" | "op \<in> set y" by auto
  then show ?case
  proof cases
    case 1
    then show ?thesis using x by auto
  next
    case 2
    from Cons.IH [OF y 2] show ?thesis by auto
  qed
qed

text \<open>
  What the iteration for a right key pushes is an add or a replace at the path of the
  key, or an operation at a path strictly below it.
\<close>

lemma rightKeyStep_ops:
  assumes "rightKeyStep cfg atTop p lo ro k = Inr x" "op \<in> set x"
  shows "adds_or_replaces_at (key_path atTop p k) op \<or> below (key_path atTop p k) (op_path op)"
proof (cases "map_of ro k")
  case None
  then show ?thesis using assms by (simp add: rightKeyStep_def)
next
  case (Some rv)
  let ?np = "p @ CHR ''/'' # k"
  show ?thesis
  proof (cases "isArray (map_of lo k) \<and> isArray (Some rv)")
    case True
    then have "compareArrays cfg (arrayItems (map_of lo k)) (arrayItems (Some rv)) ?np = Inr x"
      using assms(1) Some by (simp add: rightKeyStep_def Let_def)
    then show ?thesis using ops_paths(3) assms(2) by fastforce
  next
    case na: False
    show ?thesis
    proof (cases "isJsonObject (Some rv) \<and> isJsonObject (map_of lo k)")
      case True
      then obtain lv where lv: "map_of lo k = Some lv" by (cases "map_of lo k") auto
      with True na assms(1) Some have "compareObjects cfg ?np lv rv = Inr x"
        by (auto simp: rightKeyStep_def Let_def split: if_splits)
      then have "op = Replace ?np rv \<or> below ?np (op_path op)"
        using ops_paths(1) assms(2) by fastforce
      then show ?thesis by (auto simp: adds_or_replaces_at_def)
    next
      case False
      then show ?thesis
        using assms Some na compareWithObjectPrototype_ops [of cfg ?np "objectEntries rv"]
        by (auto simp: rightKeyStep_def Let_def adds_or_replaces_at_def
                 split: if_splits sum.splits)
    qed
  qed
qed

text \<open>
  Claim C9. The patch of the comparison of two objects at \<open>path\<close> is what the body of
  the first loop pushes for the right keys that the filter accepts in the right context,
  in their order, followed by what the body of the second loop pushes for the left keys
  that the filter accepts in the left context. So every operation of the patch is pushed
  by the iteration of a key that the filter accepts on the side of that iteration: it
  is an add or a replace at the path of a right key accepted on the right or an
  operation below that path, pushed in the iteration for that key, or it is the remove
  of a key that the left object alone holds, accepted on the left. A key rejected on the
  right is the subject of no add and no replace, a key rejected on the left is the
  subject of no remove. And one side's answer does not count on the other: a
  right key accepted on the right has every operation of its iteration in the patch,
  whatever the filter answers for it on the left, and a key that only the left object
  holds, accepted on the left, is removed, whatever the filter answers for it on the
  right.
\<close>

theorem filtered_keys_never_proposed:
  assumes "compareObjects cfg path (JObj i lo) (JObj j ro) = Inr ops"
  shows "and_then
           (for_each (rightKeyStep cfg False path lo ro) (accepted cfg Right path (map fst ro)))
           (for_each (leftKeyStep False path lo ro) (accepted cfg Left path (map fst lo)))
         = Inr ops
       \<and> (\<forall>op \<in> set ops.
             (\<exists>k' \<in> fst ` set ro. \<not> filtered_out cfg k' Right path
                 \<and> (adds_or_replaces_at (key_path False path k') op
                      \<or> below (key_path False path k') (op_path op))
                 \<and> (\<exists>x. rightKeyStep cfg False path lo ro k' = Inr x \<and> op \<in> set x))
           \<or> (\<exists>k' \<in> fst ` set lo. \<not> filtered_out cfg k' Left path
                 \<and> k' \<notin> fst ` set ro \<and> op = Remove (key_path False path k')))
       \<and> (k \<in> fst ` set ro \<and> \<not> filtered_out cfg k Right path \<longrightarrow>
             (\<exists>x. rightKeyStep cfg False path lo ro k = Inr x \<and> set x \<subseteq> set ops))
       \<and> (k \<in> fst ` set lo \<and> k \<notin> fst ` set ro \<and> \<not> filtered_out cfg k Left path \<longrightarrow>
             Remove (key_path False path k) \<in> set ops)"
proof -
  let ?right = "for_each (rightKeyStep cfg False path lo ro) (accepted cfg Right path (map fst ro))"
  let ?left = "for_each (leftKeyStep False path lo ro) (accepted cfg Left path (map fst lo))"
  from assms obtain x y where
    x: "compareRightKeys cfg False path lo ro (map fst ro) = Inr x"
    and y: "removeLeftKeys cfg False path lo ro (map fst lo) = Inr y"
    and ops: "ops = x @ y"
    by (auto simp: compareObjects.simps and_then_Inr)
  have r: "?right = Inr x" using x by (simp add: compareRightKeys_steps)
  have l: "?left = Inr y" using y by (rule removeLeftKeys_steps)
  have a: "and_then ?right ?left = Inr ops" using r l ops by (simp add: and_then_Inr)
  have left_step: "leftKeyStep False path lo ro k' = Inr z \<Longrightarrow> k' \<in> fst ` set lo \<Longrightarrow>
      z = (if k' \<notin> fst ` set ro then [Remove (key_path False path k')] else [])" for k' z
    by (auto simp: leftKeyStep_def hasOwnProperty_def split: if_splits)
  have b: "(\<exists>k' \<in> fst ` set ro. \<not> filtered_out cfg k' Right path
                 \<and> (adds_or_replaces_at (key_path False path k') op
                      \<or> below (key_path False path k') (op_path op))
                 \<and> (\<exists>x. rightKeyStep cfg False path lo ro k' = Inr x \<and> op \<in> set x))
           \<or> (\<exists>k' \<in> fst ` set lo. \<not> filtered_out cfg k' Left path
                 \<and> k' \<notin> fst ` set ro \<and> op = Remove (key_path False path k'))"
    if op: "op \<in> set ops" for op
  proof -
    from op ops consider "op \<in> set x" | "op \<in> set y" by auto
    then show ?thesis
    proof cases
      case 1
      from for_each_origin [OF r 1] obtain k' z where
        k': "k' \<in> fst ` set ro" "\<not> filtered_out cfg k' Right path"
        and z: "rightKeyStep cfg False path lo ro k' = Inr z" "op \<in> set z" by auto
      from rightKeyStep_ops [OF z]
      have "adds_or_replaces_at (key_path False path k') op
            \<or> below (key_path False path k') (op_path op)" .
      with k' z show ?thesis by blast
    next
      case 2
      from for_each_origin [OF l 2] obtain k' z where
        k': "k' \<in> fst ` set lo" "\<not> filtered_out cfg k' Left path"
        and z: "leftKeyStep False path lo ro k' = Inr z" "op \<in> set z" by auto
      from left_step [OF z(1) k'(1)] z(2) have "k' \<notin> fst ` set ro"
        "op = Remove (key_path False path k')" by (auto split: if_splits)
      with k' show ?thesis by blast
    qed
  qed
  have c: "\<exists>x. rightKeyStep cfg False path lo ro k = Inr x \<and> set x \<subseteq> set ops"
    if "k \<in> fst ` set ro" "\<not> filtered_out cfg k Right path"
  proof -
    from that have "k \<in> set (accepted cfg Right path (map fst ro))" by simp
    from for_each_Inr [OF r this] show ?thesis using ops by auto
  qed
  have d: "Remove (key_path False path k) \<in> set ops"
    if "k \<in> fst ` set lo" "k \<notin> fst ` set ro" "\<not> filtered_out cfg k Left path"
  proof -
    from that have "k \<in> set (accepted cfg Left path (map fst lo))" by simp
    from for_each_Inr [OF l this] obtain z where
      z: "leftKeyStep False path lo ro k = Inr z" "set z \<subseteq> set y" by auto
    from left_step [OF z(1) that(1)] that(2) have "z = [Remove (key_path False path k)]" by simp
    then show ?thesis using z(2) ops by auto
  qed
  show ?thesis using a b c d by blast
qed

text \<open>
  Claim C9 at three inputs. \<^verbatim>\<open>{x:1}\<close> against \<^verbatim>\<open>{z:3}\<close> with a filter that rejects
  \<^verbatim>\<open>x\<close> on the right only: \<^verbatim>\<open>x\<close> is removed all the same. \<^verbatim>\<open>{}\<close> against
  \<^verbatim>\<open>{x:1}\<close> with a filter that rejects \<^verbatim>\<open>x\<close> on the left only: \<^verbatim>\<open>x\<close> is added all
  the same. \<^verbatim>\<open>{x:1, y:1}\<close> against \<^verbatim>\<open>{x:2, z:3}\<close> with a filter that rejects \<^verbatim>\<open>x\<close>
  on both sides: \<^verbatim>\<open>z\<close> is added and \<^verbatim>\<open>y\<close> removed, and \<^verbatim>\<open>x\<close> is not replaced.
\<close>

theorem filtered_keys_never_proposed_witness:
  "filtered_out rejectXOnRight ''x'' Right [] \<and> \<not> filtered_out rejectXOnRight ''x'' Left []
   \<and> compareObjects rejectXOnRight [] (JObj 1 [(''x'', JNum 1)]) (JObj 2 [(''z'', JNum 3)])
     = Inr [Add ''/z'' (JNum 3), Remove ''/x'']
   \<and> and_then
        (for_each (rightKeyStep rejectXOnRight False [] [(''x'', JNum 1)] [(''z'', JNum 3)])
           (accepted rejectXOnRight Right [] [''z'']))
        (for_each (leftKeyStep False [] [(''x'', JNum 1)] [(''z'', JNum 3)])
           (accepted rejectXOnRight Left [] [''x'']))
     = Inr [Add ''/z'' (JNum 3), Remove ''/x'']
   \<and> Remove ''/x'' \<in> set [Add ''/z'' (JNum 3), Remove ''/x'']
   \<and> filtered_out rejectXOnLeft ''x'' Left [] \<and> \<not> filtered_out rejectXOnLeft ''x'' Right []
   \<and> compareObjects rejectXOnLeft [] (JObj 1 []) (JObj 2 [(''x'', JNum 1)])
     = Inr [Add ''/x'' (JNum 1)]
   \<and> rightKeyStep rejectXOnLeft False [] [] [(''x'', JNum 1)] ''x'' = Inr [Add ''/x'' (JNum 1)]
   \<and> filtered_out rejectX ''x'' Right [] \<and> filtered_out rejectX ''x'' Left []
   \<and> compareObjects rejectX [] (JObj 1 [(''x'', JNum 1), (''y'', JNum 1)])
        (JObj 2 [(''x'', JNum 2), (''z'', JNum 3)])
     = Inr [Add ''/z'' (JNum 3), Remove ''/y'']
   \<and> accepted rejectX Right [] [''x'', ''z''] = [''z'']
   \<and> accepted rejectX Left [] [''x'', ''y''] = [''y'']"
  using filtered_keys_never_proposed [of rejectXOnRight "[]" 1 "[(''x'', JNum 1)]" 2
      "[(''z'', JNum 3)]" "[Add ''/z'' (JNum 3), Remove ''/x'']" "''x''"]
    filtered_keys_never_proposed [of rejectXOnLeft "[]" 1 "[]" 2
      "[(''x'', JNum 1)]" "[Add ''/x'' (JNum 1)]" "''x''"]
    filtered_keys_never_proposed [of rejectX "[]" 1 "[(''x'', JNum 1), (''y'', JNum 1)]" 2
      "[(''x'', JNum 2), (''z'', JNum 3)]" "[Add ''/z'' (JNum 3), Remove ''/y'']" "''x''"]
  by (simp add: eval_simps rejectX_def rejectXOnLeft_def rejectXOnRight_def rightKeyStep_def
        leftKeyStep_def)

text \<open>
  Read on the path strings of the patch: when the key has no slash in it, no add or
  replace carries the path of a key rejected on the right, and no remove the path of a
  key rejected on the left. Paths are joined by slashes with no escaping, so the path of
  a key with a slash in it is the path of a nested key too.
\<close>

lemma filtered_paths_untouched:
  assumes "compareObjects cfg path (JObj i lo) (JObj j ro) = Inr ops"
  shows "(filtered_out cfg k Right path \<and> CHR ''/'' \<notin> set k \<longrightarrow>
            (\<forall>op \<in> set ops. \<not> adds_or_replaces_at (key_path False path k) op))
         \<and> (filtered_out cfg k Left path \<and> CHR ''/'' \<notin> set k \<longrightarrow>
            Remove (key_path False path k) \<notin> set ops)"
proof -
  from assms obtain x y where
    x: "compareRightKeys cfg False path lo ro (map fst ro) = Inr x"
    and y: "removeLeftKeys cfg False path lo ro (map fst lo) = Inr y"
    and ops: "ops = x @ y"
    by (auto simp: compareObjects.simps and_then_Inr)
  have xs: "\<forall>op \<in> set x. \<exists>k' \<in> set (map fst ro). right_op cfg path k' op"
    using ops_paths(2) [of cfg False path lo ro "map fst ro"] x by blast
  have ys: "\<forall>op \<in> set y. \<exists>k' \<in> set (map fst lo).
              \<not> filtered_out cfg k' Left path \<and> op = Remove (path @ CHR ''/'' # k')"
    by (rule removeLeftKeys_ops [OF y])
  have no_collision: "k' = k"
    if "CHR ''/'' \<notin> set k" "q = path @ CHR ''/'' # k"
      "q = path @ CHR ''/'' # k' \<or> below (path @ CHR ''/'' # k') q" for k' q
    using that by (auto simp: below_iff)
  have strictly: False
    if "CHR ''/'' \<notin> set k" "below (path @ CHR ''/'' # k') (path @ CHR ''/'' # k)" for k'
    using that by (auto simp: below_iff)
  have part1: "\<not> adds_or_replaces_at (path @ CHR ''/'' # k) op"
    if f: "filtered_out cfg k Right path" and s: "CHR ''/'' \<notin> set k" and op: "op \<in> set ops" for op
  proof
    assume a: "adds_or_replaces_at (path @ CHR ''/'' # k) op"
    then have p: "op_path op = path @ CHR ''/'' # k"
      by (auto simp: adds_or_replaces_at_def split: operation.splits)
    from op ops consider "op \<in> set x" | "op \<in> set y" by auto
    then show False
    proof cases
      case 1
      then obtain k' where k': "right_op cfg path k' op" using xs by blast
      then have "op_path op = path @ CHR ''/'' # k' \<or> below (path @ CHR ''/'' # k') (op_path op)"
        by (auto simp: right_op_def adds_or_replaces_at_def split: operation.splits)
      then have "k' = k" using no_collision [OF s p] by simp
      then show False using k' f by (simp add: right_op_def)
    next
      case 2
      then show False using ys a by (auto simp: adds_or_replaces_at_def)
    qed
  qed
  have part2: "Remove (path @ CHR ''/'' # k) \<notin> set ops"
    if f: "filtered_out cfg k Left path" and s: "CHR ''/'' \<notin> set k"
  proof
    assume "Remove (path @ CHR ''/'' # k) \<in> set ops"
    with ops consider "Remove (path @ CHR ''/'' # k) \<in> set x"
      | "Remove (path @ CHR ''/'' # k) \<in> set y" by auto
    then show False
    proof cases
      case 1
      then obtain k' where "right_op cfg path k' (Remove (path @ CHR ''/'' # k))"
        using xs by blast
      then have "below (path @ CHR ''/'' # k') (path @ CHR ''/'' # k)"
        by (auto simp: right_op_def adds_or_replaces_at_def)
      then show False using strictly [OF s] by blast
    next
      case 2
      then show False using ys f by auto
    qed
  qed
  show ?thesis using part1 part2 by simp
qed

text \<open>
  Filtering one side does not filter the other, on the whole function: a key rejected on
  the left only is still added from the right and is not removed from the left; a key
  rejected on the right only is still removed from the left and is not added from the
  right.
\<close>

lemma filter_is_per_side:
  "generateJSONPatch rejectXOnLeft (JObj i []) (JObj j [(''x'', JNum 1)]) = Inr [Add ''/x'' (JNum 1)]
   \<and> generateJSONPatch rejectXOnLeft (JObj i [(''x'', JNum 1)]) (JObj j []) = Inr []
   \<and> generateJSONPatch rejectXOnRight (JObj i [(''x'', JNum 1)]) (JObj j []) = Inr [Remove ''/x'']
   \<and> generateJSONPatch rejectXOnRight (JObj i []) (JObj j [(''x'', JNum 1)]) = Inr []"
  by (simp add: eval_simps rejectXOnLeft_def rejectXOnRight_def)

text \<open>
  With the key \<^verbatim>\<open>a/b\<close> rejected, the add for the key \<^verbatim>\<open>b\<close> of the object at
  \<^verbatim>\<open>/a\<close> carries the path \<^verbatim>\<open>/a/b\<close>, the very string the rejected key would have.
  Its subject is the nested key (the value added is 2, not 1).
\<close>

lemma unescaped_paths_collide:
  "filtered_out rejectSlashKey ''a/b'' Right []
   \<and> generateJSONPatch rejectSlashKey (JObj i [(''a'', JObj j [])])
       (JObj k [(''a/b'', JNum 1), (''a'', JObj l [(''b'', JNum 2)])])
     = Inr [Add ''/a/b'' (JNum 2)]"
  by (simp add: eval_simps rejectSlashKey_def)

section \<open>Pairing and additions in the hash strategy\<close>

lemma find_indexOf:
  "find (\<lambda>y. f y = v) xs
   = (if 0 \<le> indexOf (map f xs) v then Some (xs ! nat (indexOf (map f xs) v)) else None)"
proof (induction xs)
  case Nil
  show ?case by simp
next
  case (Cons x xs)
  show ?case
  proof (cases "f x = v")
    case True
    then show ?thesis by simp
  next
    case False
    then show ?thesis
      using Cons.IH indexOf_bounds(2) [of "map f xs" v]
      by (auto simp: Let_def nat_add_distrib)
  qed
qed

lemma firstBearing_eq:
  "firstBearing h path ra hv =
     (let rh = map (\<lambda>value. h value \<lparr>ctx_side = Right, ctx_path = path\<rparr>) ra
      in if 0 \<le> indexOf rh hv then Some (ra ! nat (indexOf rh hv)) else None)"
  unfolding firstBearing_def hashAt_def Let_def by (rule find_indexOf)

lemma matched_iff:
  "matched h path ra x
   \<longleftrightarrow> 0 \<le> indexOf (map (\<lambda>value. h value \<lparr>ctx_side = Right, ctx_path = path\<rparr>) ra)
             (h x \<lparr>ctx_side = Left, ctx_path = path\<rparr>)"
  by (simp add: matched_def hashAt_def indexOf_nonneg_iff)

lemma matchLeftLoop_elements:
  "matchLeftLoop cfg h path ra c t xs = Inr (ops, c', t') \<Longrightarrow>
     \<exists>rs. ops = concat rs \<and> length rs = length xs
          \<and> (\<forall>i < length xs. elementAt cfg h path ra (c + length (filter (matched h path ra) (take i xs))) (xs ! i) = Inr (rs ! i))
          \<and> c' = c + length (filter (matched h path ra) xs)
          \<and> t' = t @ filter (\<lambda>hv. hv \<in> set (map (hashAt h Right path) ra))
                      (map (hashAt h Left path) xs)"
proof (induction xs arbitrary: c t ops c' t')
  case Nil
  then show ?case by simp
next
  case (Cons x xs)
  let ?rh = "map (\<lambda>value. h value \<lparr>ctx_side = Right, ctx_path = path\<rparr>) ra"
  let ?lh = "h x \<lparr>ctx_side = Left, ctx_path = path\<rparr>"
  have rh: "map (hashAt h Right path) ra = ?rh" by (simp add: hashAt_def)
  show ?case
  proof (cases "0 \<le> indexOf ?rh ?lh")
    case True
    then have m: "matched h path ra x" by (simp add: matched_iff)
    have fb: "firstBearing h path ra (hashAt h Left path x) = Some (ra ! nat (indexOf ?rh ?lh))"
      using True by (simp add: firstBearing_eq hashAt_def)
    from Cons.prems True obtain a b where
      a: "compareObjects cfg (index_path path c) x (ra ! nat (indexOf ?rh ?lh)) = Inr a"
      and b: "matchLeftLoop cfg h path ra (Suc c) (t @ [?lh]) xs = Inr (b, c', t')"
      and ops: "ops = a @ b"
      by (auto simp: Let_def and_then_state_Inr)
    from Cons.IH [OF b] obtain rs where
      rs: "b = concat rs" "length rs = length xs"
        "\<forall>i < length xs. elementAt cfg h path ra (Suc c + length (filter (matched h path ra) (take i xs))) (xs ! i) = Inr (rs ! i)"
        "c' = Suc c + length (filter (matched h path ra) xs)"
        "t' = (t @ [?lh]) @ filter (\<lambda>hv. hv \<in> set (map (hashAt h Right path) ra))
                      (map (hashAt h Left path) xs)"
      by blast
    have mem: "?lh \<in> set ?rh" using True by (simp only: indexOf_nonneg_iff)
    have el: "elementAt cfg h path ra (c + length (filter (matched h path ra) (take i (x # xs)))) ((x # xs) ! i) = Inr ((a # rs) ! i)"
      if "i < length (x # xs)" for i
    proof (cases i)
      case 0
      then show ?thesis using a fb by (simp add: elementAt_def)
    next
      case (Suc j)
      then have "j < length xs" using that by simp
      then have "elementAt cfg h path ra (Suc c + length (filter (matched h path ra) (take j xs))) (xs ! j) = Inr (rs ! j)" using rs(3) by simp
      then show ?thesis using Suc m by (simp add: elementAt_def)
    qed
    show ?thesis
    proof (intro exI [of _ "a # rs"] conjI allI impI)
      show "ops = concat (a # rs)" using ops rs(1) by simp
      show "length (a # rs) = length (x # xs)" using rs(2) by simp
      show "elementAt cfg h path ra (c + length (filter (matched h path ra) (take i (x # xs)))) ((x # xs) ! i) = Inr ((a # rs) ! i)"
        if "i < length (x # xs)" for i using el [OF that] .
      show "c' = c + length (filter (matched h path ra) (x # xs))" using rs(4) m by simp
      show "t' = t @ filter (\<lambda>hv. hv \<in> set (map (hashAt h Right path) ra))
                      (map (hashAt h Left path) (x # xs))"
        using rs(5) mem rh by (simp add: hashAt_def)
    qed
  next
    case False
    then have m: "\<not> matched h path ra x" by (simp add: matched_iff)
    have fb: "firstBearing h path ra (hashAt h Left path x) = None"
      using False by (simp add: firstBearing_eq hashAt_def)
    from Cons.prems False obtain b where
      b: "matchLeftLoop cfg h path ra c t xs = Inr (b, c', t')"
      and ops: "ops = Remove (index_path path c) # b"
      by (auto simp: Let_def and_then_state_Inr)
    from Cons.IH [OF b] obtain rs where
      rs: "b = concat rs" "length rs = length xs"
        "\<forall>i < length xs. elementAt cfg h path ra (c + length (filter (matched h path ra) (take i xs))) (xs ! i) = Inr (rs ! i)"
        "c' = c + length (filter (matched h path ra) xs)"
        "t' = t @ filter (\<lambda>hv. hv \<in> set (map (hashAt h Right path) ra))
                      (map (hashAt h Left path) xs)"
      by blast
    have nmem: "?lh \<notin> set ?rh" using False by (simp only: indexOf_nonneg_iff) simp
    have el: "elementAt cfg h path ra (c + length (filter (matched h path ra) (take i (x # xs)))) ((x # xs) ! i) = Inr (([Remove (index_path path c)] # rs) ! i)"
      if "i < length (x # xs)" for i
    proof (cases i)
      case 0
      then show ?thesis using fb by (simp add: elementAt_def)
    next
      case (Suc j)
      then have "j < length xs" using that by simp
      then have "elementAt cfg h path ra (c + length (filter (matched h path ra) (take j xs))) (xs ! j) = Inr (rs ! j)" using rs(3) by simp
      then show ?thesis using Suc m by (simp add: elementAt_def)
    qed
    show ?thesis
    proof (intro exI [of _ "[Remove (index_path path c)] # rs"] conjI allI impI)
      show "ops = concat ([Remove (index_path path c)] # rs)" using ops rs(1) by simp
      show "length ([Remove (index_path path c)] # rs) = length (x # xs)" using rs(2) by simp
      show "elementAt cfg h path ra (c + length (filter (matched h path ra) (take i (x # xs)))) ((x # xs) ! i)
              = Inr (([Remove (index_path path c)] # rs) ! i)"
        if "i < length (x # xs)" for i using el [OF that] .
      show "c' = c + length (filter (matched h path ra) (x # xs))" using rs(4) m by simp
      show "t' = t @ filter (\<lambda>hv. hv \<in> set (map (hashAt h Right path) ra))
                      (map (hashAt h Left path) (x # xs))"
        using rs(5) nmem rh by (simp add: hashAt_def)
    qed
  qed
qed

lemma addLoop_eq:
  "addLoop path ra rh c t hs
   = (map2 (\<lambda>n hb. Add (index_path path n) (ra ! nat (indexOf rh hb))) [c..<c + length hs] hs,
      c + length hs, t @ hs)"
proof (induction hs arbitrary: c t)
  case Nil
  show ?case by simp
next
  case (Cons x hs)
  have "[c..<c + length (x # hs)] = c # [Suc c..<Suc c + length hs]"
    using upt_conv_Cons [of c "c + length (x # hs)"] by simp
  then show ?case using Cons.IH [of "Suc c" "t @ [x]"] by simp
qed

lemma toBeAdded_eq:
  fixes h :: "json \<Rightarrow> patch_context \<Rightarrow> 'h"
  defines "hr \<equiv> \<lambda>path. (\<lambda>value. h value \<lparr>ctx_side = Right, ctx_path = path\<rparr>)"
  shows "filter (\<lambda>hash. hash \<notin> set (filter (\<lambda>hv. hv \<in> set (map (hashAt h Right path) ra))
                                   (map (hashAt h Left path) la)))
           (map (hr path) ra)
         = map (hr path) (unmatchedRight h path la ra)"
proof -
  have "filter (\<lambda>y. hr path y \<notin> set (filter (\<lambda>hv. hv \<in> set (map (hashAt h Right path) ra))
                                   (map (hashAt h Left path) la))) ra
        = filter (\<lambda>y. hashAt h Right path y \<notin> set (map (hashAt h Left path) la)) ra"
    by (rule filter_cong) (auto simp: hr_def hashAt_def)
  then show ?thesis by (simp add: filter_map comp_def unmatchedRight_def)
qed

lemma added_values:
  assumes "y \<in> set ra"
  shows "ra ! nat (indexOf (map (\<lambda>value. h value \<lparr>ctx_side = Right, ctx_path = path\<rparr>) ra)
                    (h y \<lparr>ctx_side = Right, ctx_path = path\<rparr>))
         = (case firstBearing h path ra (hashAt h Right path y) of Some z \<Rightarrow> z | None \<Rightarrow> y)"
proof -
  have "h y \<lparr>ctx_side = Right, ctx_path = path\<rparr>
          \<in> set (map (\<lambda>value. h value \<lparr>ctx_side = Right, ctx_path = path\<rparr>) ra)"
    using assms by simp
  then have "0 \<le> indexOf (map (\<lambda>value. h value \<lparr>ctx_side = Right, ctx_path = path\<rparr>) ra)
                    (h y \<lparr>ctx_side = Right, ctx_path = path\<rparr>)"
    by (simp only: indexOf_nonneg_iff)
  then show ?thesis by (simp add: firstBearing_eq hashAt_def)
qed

lemma adds_eq_addedOps:
  fixes h :: "json \<Rightarrow> patch_context \<Rightarrow> 'h"
  assumes "c = length (filter (matched h path ra) la)"
  shows "map2 (\<lambda>n hb. Add (index_path path n)
                  (ra ! nat (indexOf (map (\<lambda>value. h value \<lparr>ctx_side = Right, ctx_path = path\<rparr>) ra) hb)))
           [c..<c + length (map (\<lambda>value. h value \<lparr>ctx_side = Right, ctx_path = path\<rparr>)
                               (unmatchedRight h path la ra))]
           (map (\<lambda>value. h value \<lparr>ctx_side = Right, ctx_path = path\<rparr>)
              (unmatchedRight h path la ra))
         = addedOps h path la ra"
proof -
  let ?us = "unmatchedRight h path la ra"
  have sub: "set ?us \<subseteq> set ra" by (auto simp: unmatchedRight_def)
  have "\<forall>p \<in> set (zip [c..<c + length ?us] ?us). snd p \<in> set ra"
    using sub by (auto dest: set_zip_rightD)
  then show ?thesis
    using assms
    by (auto simp: addedOps_def outputIndex_def zip_map2 Let_def added_values
             intro!: map_cong)
qed

text \<open>
  Claim C10, as amended. The patch of a hash reconciliation is, in this order: for each
  left element in order, the comparison of the element with the first right element
  bearing its hash (or its removal when no right element bears it); then one add for
  each right element whose hash no left element bears, each occurrence counted, carrying
  the first right element bearing that hash; then moves only.
\<close>

theorem hash_pairing_and_adds:
  assumes h: "objectHash cfg = HashFn h"
    and res: "compareArrayByHash cfg la ra path = Inr ops"
  shows "\<exists>rs mvs. ops = concat rs @ addedOps h path la ra @ mvs
           \<and> length rs = length la
           \<and> (\<forall>i < length la. elementResult cfg h path ra la i = Inr (rs ! i))
           \<and> (\<forall>op \<in> set mvs. \<exists>f t. op = Move f t)"
proof -
  let ?rh = "map (\<lambda>value. h value \<lparr>ctx_side = Right, ctx_path = path\<rparr>) ra"
  from res h obtain lops c t where
    loop: "matchLeftLoop cfg h path ra 0 [] la = Inr (lops, c, t)"
    by (auto simp: compareArrayByHash.simps Let_def split: sum.splits)
  from matchLeftLoop_elements [OF loop] obtain rs where
    rs: "lops = concat rs" "length rs = length la"
      "\<forall>i < length la. elementAt cfg h path ra
          (0 + length (filter (matched h path ra) (take i la))) (la ! i) = Inr (rs ! i)"
      "c = 0 + length (filter (matched h path ra) la)"
      "t = [] @ filter (\<lambda>hv. hv \<in> set (map (hashAt h Right path) ra))
                  (map (hashAt h Left path) la)"
    by blast
  have tb: "filter (\<lambda>hash. hash \<notin> set t) ?rh = map (\<lambda>value. h value \<lparr>ctx_side = Right, ctx_path = path\<rparr>)
              (unmatchedRight h path la ra)"
    using rs(5) toBeAdded_eq [of h path ra la] by simp
  have adds: "fst (addLoop path ra ?rh c t (filter (\<lambda>hash. hash \<notin> set t) ?rh))
                = addedOps h path la ra"
    using rs(4) adds_eq_addedOps [of c h path ra la] by (simp add: addLoop_eq tb)
  define mvs where
    "mvs = (if ignoreMove cfg then []
            else moveLoop path ?rh (t @ filter (\<lambda>hash. hash \<notin> set t) ?rh) (length ?rh))"
  have ops: "ops = lops @ addedOps h path la ra @ mvs"
    using res h loop adds
    by (auto simp: compareArrayByHash.simps Let_def mvs_def addLoop_eq split: if_splits)
  have mv: "\<forall>op \<in> set mvs. \<exists>f t. op = Move f t"
    using moveLoop_ops [of path ?rh "t @ filter (\<lambda>hash. hash \<notin> set t) ?rh" "length ?rh"]
    by (auto simp: mvs_def)
  have el: "\<forall>i < length la. elementResult cfg h path ra la i = Inr (rs ! i)"
    using rs(3) by (simp add: elementResult_def outputIndex_def)
  show ?thesis using ops rs(1,2) el mv by blast
qed

text \<open>
  Claim C10, as stated, fails: two right elements with the same hash, which no left
  element bears, give two add operations, both carrying the first of the two.
\<close>

theorem duplicate_right_hash_added_twice:
  "generateJSONPatch (idHashConfig False) (JArr [])
     (JArr [JObj 1 [(''id'', JNum 1), (''a'', JNum 1)], JObj 2 [(''id'', JNum 1), (''a'', JNum 2)]])
   = Inr [Add ''/0'' (JObj 1 [(''id'', JNum 1), (''a'', JNum 1)]),
          Add ''/1'' (JObj 1 [(''id'', JNum 1), (''a'', JNum 1)])]
   \<and> idHash (JObj 1 [(''id'', JNum 1), (''a'', JNum 1)]) \<lparr>ctx_side = Right, ctx_path = []\<rparr>
     = idHash (JObj 2 [(''id'', JNum 1), (''a'', JNum 2)]) \<lparr>ctx_side = Right, ctx_path = []\<rparr>"
  by (simp add: eval_simps)

text \<open>
  The amended claim C10 at \<^verbatim>\<open>[{id:1,a:1}]\<close> against \<^verbatim>\<open>[{id:1,a:2},{id:2}]\<close>.
\<close>

theorem hash_pairing_and_adds_witness:
  "objectHash (idHashConfig True) = HashFn idHash
   \<and> compareArrayByHash (idHashConfig True) [JObj 1 [(''id'', JNum 1), (''a'', JNum 1)]]
       [JObj 2 [(''id'', JNum 1), (''a'', JNum 2)], JObj 3 [(''id'', JNum 2)]] []
     = Inr [Replace ''/0/a'' (JNum 2), Add ''/1'' (JObj 3 [(''id'', JNum 2)])]
   \<and> (\<exists>rs mvs. [Replace ''/0/a'' (JNum 2), Add ''/1'' (JObj 3 [(''id'', JNum 2)])]
           = concat rs @ addedOps idHash [] [JObj 1 [(''id'', JNum 1), (''a'', JNum 1)]]
                [JObj 2 [(''id'', JNum 1), (''a'', JNum 2)], JObj 3 [(''id'', JNum 2)]] @ mvs
         \<and> length rs = length [JObj 1 [(''id'', JNum 1), (''a'', JNum 1)]]
         \<and> (\<forall>i < length [JObj 1 [(''id'', JNum 1), (''a'', JNum 1)]].
               elementResult (idHashConfig True) idHash []
                 [JObj 2 [(''id'', JNum 1), (''a'', JNum 2)], JObj 3 [(''id'', JNum 2)]]
                 [JObj 1 [(''id'', JNum 1), (''a'', JNum 1)]] i = Inr (rs ! i))
         \<and> (\<forall>op \<in> set mvs. \<exists>f t. op = Move f t))"
proof -
  have h: "objectHash (idHashConfig True) = HashFn idHash" by (simp add: idHashConfig_def)
  have r: "compareArrayByHash (idHashConfig True) [JObj 1 [(''id'', JNum 1), (''a'', JNum 1)]]
       [JObj 2 [(''id'', JNum 1), (''a'', JNum 2)], JObj 3 [(''id'', JNum 2)]] []
     = Inr [Replace ''/0/a'' (JNum 2), Add ''/1'' (JObj 3 [(''id'', JNum 2)])]"
    by (simp add: eval_simps)
  show ?thesis using h r hash_pairing_and_adds [OF h r] by simp
qed

lemma digit_char_no_slash: "n < 10 \<Longrightarrow> digit_char n \<noteq> CHR ''/''"
proof -
  assume "n < 10"
  then have "n \<in> {0, 1, 2, 3, 4, 5, 6, 7, 8, 9}" by auto
  then show ?thesis by (auto simp: digit_char_def)
qed

lemma show_nat_no_slash: "CHR ''/'' \<notin> set (show_nat n)"
proof (induction n rule: show_nat.induct)
  case (1 n)
  show ?case
  proof (cases "n < 10")
    case True
    then show ?thesis using digit_char_no_slash [of n] by (simp add: show_nat.simps [of n])
  next
    case False
    then show ?thesis
      using "1.IH" digit_char_no_slash [of "n mod 10"]
      by (simp add: show_nat.simps [of n])
  qed
qed

lemma show_int_no_slash: "CHR ''/'' \<notin> set (show_int i)"
  by (simp add: show_int_def show_nat_no_slash)

lemma own_move_move_op: "own_move path (move_op path m)"
  by (simp add: own_move_def move_op_def show_int_no_slash)

section \<open>The moves of the hash strategy\<close>

lemma take_min_length: "take (min n (length xs)) xs = take n xs"
  by (simp add: min_def)

lemma drop_min_length: "drop (min n (length xs)) xs = drop n xs"
  by (simp add: min_def)

lemma moveArrayElement_apply:
  assumes "0 \<le> c" "nat c < length s" "0 \<le> t"
  shows "moveArrayElement s c t = apply_move (c, t) s"
proof -
  have s: "splice_start c (length s) = nat c" using assms by (simp add: splice_start_def)
  have r: "take 1 (drop (nat c) s) = [s ! nat c]"
    using Cons_nth_drop_Suc [OF assms(2), symmetric] by simp
  have t: "splice_start t n = min (nat t) n" for n
    using assms(3) by (simp add: splice_start_def)
  show ?thesis
    by (simp only: moveArrayElement_def apply_move_def Let_def s r t take_min_length
          drop_min_length fst_conv snd_conv append_Cons append_Nil)
qed

lemma set_apply_move:
  assumes "0 \<le> c" "nat c < length s"
  shows "set (apply_move (c, t) s) = set s"
proof -
  let ?rest = "take (nat c) s @ drop (Suc (nat c)) s"
  have "set (take (nat t) ?rest @ s ! nat c # drop (nat t) ?rest)
        = insert (s ! nat c) (set (take (nat t) ?rest @ drop (nat t) ?rest))"
    by simp
  also have "\<dots> = insert (s ! nat c) (set ?rest)" by (simp only: append_take_drop_id)
  also have "\<dots> = set (take (nat c) s @ s ! nat c # drop (Suc (nat c)) s)" by auto
  also have "\<dots> = set s" using assms(2) by (simp only: id_take_nth_drop [symmetric])
  finally show ?thesis by (simp add: apply_move_def Let_def)
qed

lemma shadow_after_Cons:
  "shadow_after s (m # ms) (Suc k) = shadow_after (apply_move m s) ms k"
  by (simp add: shadow_after_def)

text \<open>
  The move loop run from the right position \<open>n\<close> down, on a shadow sequence that holds
  every right hash.
\<close>

lemma moveLoop_trace:
  assumes "n \<le> length rh" "set rh \<subseteq> set s"
  shows "\<exists>ms positions. moveLoop path rh s n = map (move_op path) ms
           \<and> length positions = length ms
           \<and> sorted_wrt (>) positions
           \<and> (\<forall>i \<in> set positions. i < n)
           \<and> (\<forall>k < length ms. move_step rh s ms positions k)"
  using assms
proof (induction n arbitrary: s)
  case 0
  show ?case by (intro exI [of _ "[]"]) simp
next
  case (Suc n)
  let ?hash = "rh ! n"
  let ?c = "indexOf s ?hash"
  let ?t = "indexOf rh ?hash"
  from Suc.prems have n: "n < length rh" and le: "n \<le> length rh" by simp_all
  then have hr: "?hash \<in> set rh" by simp
  then have hs: "?hash \<in> set s" using Suc.prems(2) by auto
  have c0: "0 \<le> ?c" using hs by (simp only: indexOf_nonneg_iff)
  have cl: "nat ?c < length s" using hs by (rule indexOf_less)
  have t0: "0 \<le> ?t" using hr by (simp only: indexOf_nonneg_iff)
  show ?case
  proof (cases "?c = ?t")
    case True
    from Suc.IH [OF le Suc.prems(2)] obtain ms positions where
      "moveLoop path rh s n = map (move_op path) ms" "length positions = length ms"
      "sorted_wrt (>) positions" "\<forall>i \<in> set positions. i < n"
      "\<forall>k < length ms. move_step rh s ms positions k"
      by blast
    then show ?thesis
      using True by (intro exI [of _ ms] exI [of _ positions]) (auto simp: Let_def)
  next
    case False
    let ?s' = "moveArrayElement s ?c ?t"
    have eq: "?s' = apply_move (?c, ?t) s" by (rule moveArrayElement_apply [OF c0 cl t0])
    have "set ?s' = set s" using set_apply_move [OF c0 cl] eq by simp
    then have sub: "set rh \<subseteq> set ?s'" using Suc.prems(2) by simp
    from Suc.IH [OF le sub] obtain ms positions where
      ih: "moveLoop path rh ?s' n = map (move_op path) ms" "length positions = length ms"
      "sorted_wrt (>) positions" "\<forall>i \<in> set positions. i < n"
      "\<forall>k < length ms. move_step rh ?s' ms positions k"
      by blast
    have step: "move_step rh s ((?c, ?t) # ms) (n # positions) k"
      if "k < length ((?c, ?t) # ms)" for k
    proof (cases k)
      case 0
      then show ?thesis
        using False c0 cl n indexOf_nth [OF hs]
        by (simp add: move_step_def shadow_after_def)
    next
      case (Suc j)
      then have "j < length ms" using that by simp
      then have "move_step rh ?s' ms positions j" using ih(5) by simp
      moreover have "move_step rh s ((?c, ?t) # ms) (n # positions) (Suc j)
                     = move_step rh ?s' ms positions j"
        by (simp add: move_step_def shadow_after_Cons eq)
      ultimately show ?thesis using Suc by simp
    qed
    show ?thesis
    proof (intro exI [of _ "(?c, ?t) # ms"] exI [of _ "n # positions"] conjI allI impI)
      show "moveLoop path rh s (Suc n) = map (move_op path) ((?c, ?t) # ms)"
        using False ih(1) by (simp add: Let_def move_op_def)
      show "length (n # positions) = length ((?c, ?t) # ms)" using ih(2) by simp
      show "sorted_wrt (>) (n # positions)" using ih(3,4) by auto
      show "\<forall>i \<in> set (n # positions). i < Suc n" using ih(4) by auto
      show "move_step rh s ((?c, ?t) # ms) (n # positions) k"
        if "k < length ((?c, ?t) # ms)" for k using step [OF that] .
    qed
  qed
qed

lemma shadow_start_eq:
  "filter (\<lambda>hv. hv \<in> set rh) lh
     @ filter (\<lambda>hash. hash \<notin> set (filter (\<lambda>hv. hv \<in> set rh) lh)) rh
   = shadow_start lh rh"
proof -
  have "filter (\<lambda>hash. hash \<notin> set (filter (\<lambda>hv. hv \<in> set rh) lh)) rh
        = filter (\<lambda>hv. hv \<notin> set lh) rh"
    by (rule filter_cong) auto
  then show ?thesis by (simp add: shadow_start_def)
qed

lemma shadow_start_covers: "set rh \<subseteq> set (shadow_start lh rh)"
  by (auto simp: shadow_start_def)

text \<open>
  Claim C4. The patch of a hash reconciliation of the array at \<open>path\<close> is a prefix
  holding no move of this array (every add, remove and replace of its subtree, and the
  moves of nested arrays), followed by the moves of this array. These moves belong to
  right positions taken in strictly decreasing order, and the \<open>k\<close>-th of them goes from
  the index its hash has in the shadow sequence, as the first \<open>k\<close> moves have left it, to
  the first right index of that hash (\<open>move_step\<close>).
\<close>

theorem moves_emitted_last_right_to_left:
  assumes h: "objectHash cfg = HashFn h"
    and res: "compareArrayByHash cfg la ra path = Inr ops"
  shows "\<exists>pre ms positions.
           ops = pre @ map (move_op path) ms
         \<and> (\<forall>op \<in> set pre. \<not> own_move path op)
         \<and> (\<forall>m \<in> set ms. own_move path (move_op path m))
         \<and> length positions = length ms
         \<and> sorted_wrt (>) positions
         \<and> (\<forall>k < length ms.
               move_step (map (hashAt h Right path) ra)
                 (shadow_start (map (hashAt h Left path) la) (map (hashAt h Right path) ra))
                 ms positions k)"
proof -
  let ?rh = "map (\<lambda>value. h value \<lparr>ctx_side = Right, ctx_path = path\<rparr>) ra"
  let ?lh = "map (hashAt h Left path) la"
  let ?s = "shadow_start ?lh ?rh"
  have rh: "map (hashAt h Right path) ra = ?rh" by (simp add: hashAt_def)
  from res h obtain lops c t where
    loop: "matchLeftLoop cfg h path ra 0 [] la = Inr (lops, c, t)"
    by (auto simp: compareArrayByHash.simps Let_def split: sum.splits)
  from matchLeftLoop_elements [OF loop] have t: "t = filter (\<lambda>hv. hv \<in> set ?rh) ?lh"
    using rh by auto
  have target: "t @ filter (\<lambda>hash. hash \<notin> set t) ?rh = ?s"
    unfolding t by (rule shadow_start_eq)
  let ?adds = "fst (addLoop path ra ?rh c t (filter (\<lambda>hash. hash \<notin> set t) ?rh))"
  have pre: "\<forall>op \<in> set (lops @ ?adds). \<not> own_move path op"
  proof
    fix op
    assume "op \<in> set (lops @ ?adds)"
    then consider "op \<in> set lops" | "op \<in> set ?adds" by auto
    then show "\<not> own_move path op"
    proof cases
      case 1
      then show ?thesis using ops_paths(6) [of cfg h path ra 0 "[]" la] loop by auto
    next
      case 2
      have "\<forall>op \<in> set ?adds. \<exists>i v. op = Add (index_path path i) v"
        by (rule addLoop_ops [of path ra ?rh c t "filter (\<lambda>hash. hash \<notin> set t) ?rh" _
              "snd (addLoop path ra ?rh c t (filter (\<lambda>hash. hash \<notin> set t) ?rh))"]) simp
      with 2 show ?thesis by (auto simp: own_move_def)
    qed
  qed
  show ?thesis
  proof (cases "ignoreMove cfg")
    case True
    then have "ops = (lops @ ?adds) @ map (move_op path) []"
      using res h loop by (auto simp: compareArrayByHash.simps Let_def split: prod.splits)
    then show ?thesis
      using pre by (intro exI [of _ "lops @ ?adds"] exI [of _ "[]"]) simp
  next
    case False
    then have ops: "ops = (lops @ ?adds) @ moveLoop path ?rh ?s (length ?rh)"
      using res h loop target
      by (auto simp: compareArrayByHash.simps Let_def addLoop_eq split: prod.splits)
    from moveLoop_trace [where path = path, OF order_refl shadow_start_covers [of ?rh ?lh]]
    obtain ms positions where
      tr: "moveLoop path ?rh ?s (length ?rh) = map (move_op path) ms"
        "length positions = length ms" "sorted_wrt (>) positions"
        "\<forall>k < length ms. move_step ?rh ?s ms positions k"
      by blast
    have st: "\<forall>k < length ms.
               move_step (map (hashAt h Right path) ra)
                 (shadow_start ?lh (map (hashAt h Right path) ra)) ms positions k"
      using tr(4) by (simp only: rh)
    show ?thesis
      using ops tr(1,2,3) st pre own_move_move_op
      by (intro exI [of _ "lops @ ?adds"] exI [of _ ms] exI [of _ positions]) simp
  qed
qed

text \<open>
  Claim C4 at \<^verbatim>\<open>[{id:1},{id:2},{id:3}]\<close> against \<^verbatim>\<open>[{id:3},{id:2},{id:1}]\<close>: two
  moves, both from index 0, the second from the sequence the first has left.
\<close>

theorem moves_emitted_last_witness:
  "objectHash (idHashConfig False) = HashFn idHash
   \<and> compareArrayByHash (idHashConfig False)
        [JObj 1 [(''id'', JNum 1)], JObj 2 [(''id'', JNum 2)], JObj 3 [(''id'', JNum 3)]]
        [JObj 4 [(''id'', JNum 3)], JObj 5 [(''id'', JNum 2)], JObj 6 [(''id'', JNum 1)]] []
      = Inr [Move ''/0'' ''/2'', Move ''/0'' ''/1'']
   \<and> (\<exists>pre ms positions.
           [Move ''/0'' ''/2'', Move ''/0'' ''/1''] = pre @ map (move_op []) ms
         \<and> (\<forall>op \<in> set pre. \<not> own_move [] op)
         \<and> (\<forall>m \<in> set ms. own_move [] (move_op [] m))
         \<and> length positions = length ms
         \<and> sorted_wrt (>) positions
         \<and> (\<forall>k < length ms.
               move_step
                 (map (hashAt idHash Right [])
                    [JObj 4 [(''id'', JNum 3)], JObj 5 [(''id'', JNum 2)], JObj 6 [(''id'', JNum 1)]])
                 (shadow_start
                    (map (hashAt idHash Left [])
                       [JObj 1 [(''id'', JNum 1)], JObj 2 [(''id'', JNum 2)], JObj 3 [(''id'', JNum 3)]])
                    (map (hashAt idHash Right [])
                       [JObj 4 [(''id'', JNum 3)], JObj 5 [(''id'', JNum 2)], JObj 6 [(''id'', JNum 1)]]))
                 ms positions k))"
proof -
  have h: "objectHash (idHashConfig False) = HashFn idHash" by (simp add: idHashConfig_def)
  have r: "compareArrayByHash (idHashConfig False)
        [JObj 1 [(''id'', JNum 1)], JObj 2 [(''id'', JNum 2)], JObj 3 [(''id'', JNum 3)]]
        [JObj 4 [(''id'', JNum 3)], JObj 5 [(''id'', JNum 2)], JObj 6 [(''id'', JNum 1)]] []
      = Inr [Move ''/0'' ''/2'', Move ''/0'' ''/1'']"
    by (simp add: eval_simps)
  show ?thesis using h r moves_emitted_last_right_to_left [OF h r] by simp
qed

section \<open>Completion\<close>

lemma shadowFree_arrayItems: "shadowFree v \<Longrightarrow> \<forall>x \<in> set (arrayItems (Some v)). shadowFree x"
  by (cases v) auto

lemma shadowFree_objectEntries:
  "shadowFree v \<Longrightarrow>
     ''hasOwnProperty'' \<notin> fst ` set (objectEntries v)
     \<and> (\<forall>p \<in> set (objectEntries v). shadowFree (snd p))"
  by (cases v) auto

lemma shadowFree_map_of:
  assumes "\<forall>e \<in> set kvs. shadowFree (snd e)" "map_of kvs k = Some v"
  shows "shadowFree v"
proof -
  from assms(2) have "(k, v) \<in> set kvs" by (rule map_of_SomeD)
  with assms(1) show ?thesis by force
qed

lemma removeLeftKeys_total:
  assumes "''hasOwnProperty'' \<notin> fst ` set lo" "''hasOwnProperty'' \<notin> fst ` set ro"
  shows "\<exists>ops. removeLeftKeys cfg atTop p lo ro ks = Inr ops"
proof (induction ks)
  case Nil
  show ?case by simp
next
  case (Cons k ks)
  then obtain ops where "removeLeftKeys cfg atTop p lo ro ks = Inr ops" by blast
  then show ?case using assms by (simp add: hasOwnProperty_def and_then_def)
qed

lemma and_then_total: "a = Inr x \<Longrightarrow> b = Inr y \<Longrightarrow> \<exists>ops. and_then a b = Inr ops"
  by (simp add: and_then_def)

lemma and_then_state_total:
  "a = Inr x \<Longrightarrow> b = Inr y \<Longrightarrow> \<exists>res. and_then_state a b = Inr res"
  by (cases y) (simp add: and_then_state_def)

text \<open>
  With a hash that is absent or a function, on values in which no object has an own
  property \<^verbatim>\<open>hasOwnProperty\<close>, every comparison returns a patch.
\<close>

lemma completes:
  fixes cfg :: "'h config"
  shows "objectHash cfg \<noteq> NotCallable \<longrightarrow> shadowFree l \<longrightarrow> shadowFree r \<longrightarrow>
           (\<exists>ops. compareObjects cfg p l r = Inr ops)"
    and "objectHash cfg \<noteq> NotCallable \<longrightarrow> ''hasOwnProperty'' \<notin> fst ` set lo \<longrightarrow>
           (\<forall>e \<in> set lo. shadowFree (snd e)) \<longrightarrow> (\<forall>e \<in> set ro. shadowFree (snd e)) \<longrightarrow>
           (\<exists>ops. compareRightKeys cfg atTop p lo ro ks = Inr ops)"
    and "objectHash cfg \<noteq> NotCallable \<longrightarrow> (\<forall>x \<in> set la. shadowFree x) \<longrightarrow>
           (\<forall>x \<in> set ra. shadowFree x) \<longrightarrow> (\<exists>ops. compareArrays cfg la ra p = Inr ops)"
    and "objectHash cfg \<noteq> NotCallable \<longrightarrow> (\<forall>x \<in> set la. shadowFree x) \<longrightarrow>
           (\<forall>x \<in> set ra. shadowFree x) \<longrightarrow>
           (\<exists>ops. compareArrayByIndex cfg p c la ra = Inr ops)"
    and "objectHash cfg \<noteq> NotCallable \<longrightarrow> objectHash cfg \<noteq> NoHash \<longrightarrow>
           (\<forall>x \<in> set la. shadowFree x) \<longrightarrow> (\<forall>x \<in> set ra. shadowFree x) \<longrightarrow>
           (\<exists>ops. compareArrayByHash cfg la ra p = Inr ops)"
    and "objectHash cfg \<noteq> NotCallable \<longrightarrow> (\<forall>x \<in> set xs. shadowFree x) \<longrightarrow>
           (\<forall>x \<in> set ra. shadowFree x) \<longrightarrow>
           (\<exists>res. matchLeftLoop cfg h p ra c t xs = Inr res)"
proof (induction cfg p l r and cfg atTop p lo ro ks and cfg la ra p and cfg p c la ra
    and cfg la ra p and cfg h p ra c t xs
    rule: compareObjects_compareRightKeys_compareArrays_compareArrayByIndex_compareArrayByHash_matchLeftLoop.induct)
  case (1 cfg path l r)
  show ?case
  proof (intro impI)
    assume nc: "objectHash cfg \<noteq> NotCallable" and l: "shadowFree l" and r: "shadowFree r"
    consider (prim) "isPrimitiveValue l \<or> isPrimitiveValue r"
      | (top) "\<not> (isPrimitiveValue l \<or> isPrimitiveValue r)"
          "path = [] \<and> isArray (Some l) \<and> isArray (Some r)"
      | (mismatch) "\<not> (isPrimitiveValue l \<or> isPrimitiveValue r)"
          "\<not> (path = [] \<and> isArray (Some l) \<and> isArray (Some r))"
          "isArray (Some l) \<or> isArray (Some r)"
      | (objs) "\<not> (isPrimitiveValue l \<or> isPrimitiveValue r)"
          "\<not> (path = [] \<and> isArray (Some l) \<and> isArray (Some r))"
          "\<not> (isArray (Some l) \<or> isArray (Some r))"
      by blast
    then show "\<exists>ops. compareObjects cfg path l r = Inr ops"
    proof cases
      case prim
      then show ?thesis by (auto simp: compareObjects.simps Let_def)
    next
      case top
      then show ?thesis
        using "1.IH"(1) [OF refl top(1)] nc shadowFree_arrayItems [OF l]
          shadowFree_arrayItems [OF r]
        by (auto simp: compareObjects.simps Let_def)
    next
      case mismatch
      then show ?thesis by (auto simp: compareObjects.simps Let_def)
    next
      case objs
      have "\<exists>ops. compareRightKeys cfg False path (objectEntries l) (objectEntries r)
                (map fst (objectEntries r)) = Inr ops"
        using "1.IH"(2) [OF refl objs(1) objs(2) objs(3)] objs(2) nc
          shadowFree_objectEntries [OF l] shadowFree_objectEntries [OF r]
        by simp
      moreover have "\<exists>ops. removeLeftKeys cfg False path (objectEntries l) (objectEntries r)
                (map fst (objectEntries l)) = Inr ops"
        using shadowFree_objectEntries [OF l] shadowFree_objectEntries [OF r]
        by (simp add: removeLeftKeys_total)
      ultimately show ?thesis
        using objs by (auto simp: compareObjects.simps and_then_def Let_def)
    qed
  qed
next
  case (2 cfg isArrayAtTop path lo ro)
  show ?case by simp
next
  case (3 cfg isArrayAtTop path lo ro rightKey ks)
  show ?case
  proof (intro impI)
    assume nc: "objectHash cfg \<noteq> NotCallable"
      and own: "''hasOwnProperty'' \<notin> fst ` set lo"
      and lo: "\<forall>e \<in> set lo. shadowFree (snd e)" and ro: "\<forall>e \<in> set ro. shadowFree (snd e)"
    show "\<exists>ops. compareRightKeys cfg isArrayAtTop path lo ro (rightKey # ks) = Inr ops"
    proof (cases "filtered_out cfg rightKey Right path")
      case True
      then show ?thesis using "3.IH"(1) [OF True] nc own lo ro by simp
    next
      case nf: False
      show ?thesis
      proof (cases "map_of ro rightKey")
        case None
        then show ?thesis using "3.IH"(2) [OF nf None] nc own lo ro nf by simp
      next
        case (Some rv)
        let ?np = "key_path isArrayAtTop path rightKey"
        have rv: "shadowFree rv" using shadowFree_map_of [OF ro Some] .
        obtain y where y: "compareRightKeys cfg isArrayAtTop path lo ro ks = Inr y"
          using "3.IH"(5) [OF nf Some refl refl] nc own lo ro by blast
        let ?step = "(if isArray (map_of lo rightKey) \<and> isArray (Some rv)
                   then compareArrays cfg (arrayItems (map_of lo rightKey))
                          (arrayItems (Some rv)) ?np
                   else if isJsonObject (Some rv) then
                     (if isJsonObject (map_of lo rightKey) then
                        (case map_of lo rightKey of
                           Some lv \<Rightarrow> compareObjects cfg ?np lv rv
                         | None \<Rightarrow> Inr [])
                      else if readsObjectPrototype lo rightKey then
                        Inr (compareWithObjectPrototype cfg ?np (objectEntries rv)
                               (map fst (objectEntries rv)))
                      else (case hasOwnProperty lo rightKey of
                              Inl e \<Rightarrow> Inl e
                            | Inr own \<Rightarrow>
                                if own then Inr [Replace ?np rv]
                                else Inr [Add ?np rv]))
                   else (case hasOwnProperty lo rightKey of
                           Inl e \<Rightarrow> Inl e
                         | Inr own \<Rightarrow>
                             if \<not> own then Inr [Add ?np rv]
                             else if map_of lo rightKey \<noteq> Some rv
                             then Inr [Replace ?np rv]
                             else Inr []))"
        have unfold: "compareRightKeys cfg isArrayAtTop path lo ro (rightKey # ks)
                      = and_then ?step (compareRightKeys cfg isArrayAtTop path lo ro ks)"
          using nf Some by (simp add: Let_def del: key_path_eq)
        have step: "\<exists>x. ?step = Inr x"
        proof (cases "isArray (map_of lo rightKey) \<and> isArray (Some rv)")
          case True
          then obtain lv where lv: "map_of lo rightKey = Some lv"
            by (cases "map_of lo rightKey") auto
          have "shadowFree lv" using shadowFree_map_of [OF lo lv] .
          then show ?thesis
            using "3.IH"(3) [OF nf Some refl refl True] True nc lv
              shadowFree_arrayItems [of lv] shadowFree_arrayItems [OF rv]
            by simp
        next
          case na: False
          show ?thesis
          proof (cases "isJsonObject (Some rv) \<and> isJsonObject (map_of lo rightKey)")
            case True
            then obtain lv where lv: "map_of lo rightKey = Some lv"
              by (cases "map_of lo rightKey") auto
            have "shadowFree lv" using shadowFree_map_of [OF lo lv] .
            then have "\<exists>x. compareObjects cfg ?np lv rv = Inr x"
              using "3.IH"(4) [OF nf Some refl refl na _ _ lv] True lv nc rv by simp
            then show ?thesis using True na lv by (auto split: if_splits)
          next
            case False
            then show ?thesis
              using na own by (auto simp: hasOwnProperty_def split: if_splits)
          qed
        qed
        then obtain x where "?step = Inr x" ..
        then show ?thesis unfolding unfold using y by (rule and_then_total)
      qed
    qed
  qed
next
  case (4 cfg leftArr rightArr path)
  show ?case
  proof (intro impI)
    assume nc: "objectHash cfg \<noteq> NotCallable"
      and l: "\<forall>x \<in> set leftArr. shadowFree x" and r: "\<forall>x \<in> set rightArr. shadowFree x"
    show "\<exists>ops. compareArrays cfg leftArr rightArr path = Inr ops"
    proof (cases "stringify_eq (JArr leftArr) (JArr rightArr)")
      case True
      then show ?thesis by (simp add: compareArrays.simps)
    next
      case False
      then show ?thesis
        using "4.IH" nc l r by (cases "objectHash cfg") (auto simp: compareArrays.simps)
    qed
  qed
next
  case (5 cfg path currentIndex)
  show ?case by simp
next
  case (6 cfg path currentIndex x xs y ys)
  then show ?case by (auto simp: and_then_def)
next
  case (7 cfg path currentIndex y ys)
  then show ?case by (auto simp: and_then_def)
next
  case (8 cfg path currentIndex x xs)
  then show ?case by (auto simp: and_then_def)
next
  case (9 cfg leftArr rightArr path)
  show ?case
  proof (intro impI)
    assume nc: "objectHash cfg \<noteq> NotCallable" and nn: "objectHash cfg \<noteq> NoHash"
      and l: "\<forall>x \<in> set leftArr. shadowFree x" and r: "\<forall>x \<in> set rightArr. shadowFree x"
    from nc nn obtain h where h: "objectHash cfg = HashFn h" by (cases "objectHash cfg") auto
    obtain res where "matchLeftLoop cfg h path rightArr 0 [] leftArr = Inr res"
      using "9.IH" [OF h refl] nc l r by blast
    then show "\<exists>ops. compareArrayByHash cfg leftArr rightArr path = Inr ops"
      using h by (auto simp: compareArrayByHash.simps Let_def split: prod.splits)
  qed
next
  case (10 cfg h path rightArr currentIndex targetHashes)
  show ?case by simp
next
  case (11 cfg h path rightArr currentIndex targetHashes x xs)
  let ?rh = "map (\<lambda>value. h value \<lparr>ctx_side = Right, ctx_path = path\<rparr>) rightArr"
  let ?lh = "h x \<lparr>ctx_side = Left, ctx_path = path\<rparr>"
  show ?case
  proof (intro impI)
    assume nc: "objectHash cfg \<noteq> NotCallable"
      and l: "\<forall>x \<in> set (x # xs). shadowFree x" and r: "\<forall>x \<in> set rightArr. shadowFree x"
    show "\<exists>res. matchLeftLoop cfg h path rightArr currentIndex targetHashes (x # xs) = Inr res"
    proof (cases "0 \<le> indexOf ?rh ?lh")
      case True
      then have "?lh \<in> set ?rh" by (simp only: indexOf_nonneg_iff)
      then have "nat (indexOf ?rh ?lh) < length rightArr" using indexOf_less [of ?lh ?rh] by simp
      then have "shadowFree (rightArr ! nat (indexOf ?rh ?lh))" using r by simp
      then obtain a where
        a: "compareObjects cfg (index_path path currentIndex) x
              (rightArr ! nat (indexOf ?rh ?lh)) = Inr a"
        using "11.IH"(1) [OF refl refl refl refl True] nc l by auto
      obtain b where
        b: "matchLeftLoop cfg h path rightArr (Suc currentIndex) (targetHashes @ [?lh]) xs = Inr b"
        using "11.IH"(2) [OF refl refl refl refl True] nc l r by auto
      show ?thesis using True a b and_then_state_total [OF a b] by (simp add: Let_def)
    next
      case False
      obtain b where
        b: "matchLeftLoop cfg h path rightArr currentIndex targetHashes xs = Inr b"
        using "11.IH"(3) [OF refl refl refl refl False] nc l r by auto
      show ?thesis
        using False b and_then_state_total [OF refl b, of "[Remove (index_path path currentIndex)]"]
        by (simp add: Let_def)
    qed
  qed
qed

text \<open>
  So \<^verbatim>\<open>generateJSONPatch\<close> throws only for a configuration whose \<^verbatim>\<open>objectHash\<close> is
  truthy and not a function, or on a value that owns a property \<^verbatim>\<open>hasOwnProperty\<close>.
\<close>

lemma generateJSONPatch_completes:
  "objectHash cfg \<noteq> NotCallable \<Longrightarrow> shadowFree a \<Longrightarrow> shadowFree b \<Longrightarrow>
     \<exists>ops. generateJSONPatch cfg a b = Inr ops"
  using completes(1) [of cfg a b "[]"] by (simp add: generateJSONPatch_def)

text \<open>
  The error of the missing hash function: the hash comparison throws it whenever
  \<^verbatim>\<open>objectHash\<close> is not a function, and two different arrays at the top reach it.
\<close>

lemma missing_hash_thrown:
  "objectHash cfg = NotCallable \<Longrightarrow> compareArrayByHash cfg la ra p = Inl MissingHashFunction"
  by (simp add: compareArrayByHash.simps)

lemma missing_hash_at_top:
  "objectHash cfg = NotCallable \<Longrightarrow> \<not> stringify_eq (JArr la) (JArr ra) \<Longrightarrow>
     generateJSONPatch cfg (JArr la) (JArr ra) = Inl MissingHashFunction"
  by (simp add: generateJSONPatch_def compareObjects.simps compareArrays.simps
        compareArrayByHash.simps)

end
